theory Spec2Isabelle
  imports Main "HOL-Library.AList"
begin

section \<open>Glyph specifications\<close>

text \<open>
  The lookup-tree helpers of \<^verbatim>\<open>extraterm-font-ligatures/src/processors/helper.ts\<close>
  work on candidate glyphs of type \<^verbatim>\<open>number | [number, number]\<close>: a single glyph
  ID, or a two-element array holding the bounds of a range. \<^verbatim>\<open>Array.isArray\<close>
  tells the two apart, which is the constructor test of the datatype below. Glyph IDs are
  integers.
\<close>

type_synonym glyph_range = "int \<times> int"

datatype glyph_spec = Single int | Range glyph_range

section \<open>dedupGlyphs\<close>

text \<open>
  The loop of \<^verbatim>\<open>dedupGlyphs\<close> carries \<^verbatim>\<open>result\<close>, the set
  \<^verbatim>\<open>singleGlyphs\<close> of numbers, and \<^verbatim>\<open>pairGlyphs\<close>. The latter is a
  JavaScript set of arrays, that is a set by object identity, which the code never queries
  with \<^verbatim>\<open>has\<close>: it iterates over it, in insertion order, and compares the two
  bounds. It is a list here.
\<close>

fun dedupLoop :: "glyph_spec list \<Rightarrow> glyph_spec list \<Rightarrow> int set \<Rightarrow> glyph_range list
    \<Rightarrow> glyph_spec list" where
  "dedupLoop [] result singleGlyphs pairGlyphs = result"
| "dedupLoop (Range glyph # glyphs) result singleGlyphs pairGlyphs =
     (let found = list_ex (\<lambda>pair. fst pair = fst glyph \<and> snd pair = snd glyph) pairGlyphs
      in if \<not> found
         then dedupLoop glyphs (result @ [Range glyph]) singleGlyphs (pairGlyphs @ [glyph])
         else dedupLoop glyphs result singleGlyphs pairGlyphs)"
| "dedupLoop (Single glyph # glyphs) result singleGlyphs pairGlyphs =
     (if glyph \<notin> singleGlyphs
      then dedupLoop glyphs (result @ [Single glyph]) (insert glyph singleGlyphs) pairGlyphs
      else dedupLoop glyphs result singleGlyphs pairGlyphs)"

definition dedupGlyphs :: "glyph_spec list \<Rightarrow> glyph_spec list" where
  "dedupGlyphs glyphs =
     (if length glyphs < 2 then glyphs else dedupLoop glyphs [] {} [])"

text \<open>
  The contract in the specification's words: every value is kept where it occurs first,
  and nowhere else. The element at index \<open>i\<close> survives exactly when it does not occur
  among the \<open>i\<close> elements before it.
\<close>

definition firstOccurrences :: "'a list \<Rightarrow> 'a list" where
  "firstOccurrences xs =
     map (\<lambda>i. xs ! i) (filter (\<lambda>i. xs ! i \<notin> set (take i xs)) [0..<length xs])"

section \<open>Substitution lookups\<close>

text \<open>
  \<^verbatim>\<open>SubstitutionLookupRecord\<close> and \<^verbatim>\<open>Lookup\<close> are declared in
  \<^verbatim>\<open>tables.ts\<close>; the helpers read the two fields of a record and the
  \<^verbatim>\<open>subtables\<close> of a lookup (after the cast to \<^verbatim>\<open>Lookup.Type1\<close>, which
  does nothing at run time). The type \<open>'t\<close> of a subtable is left open: the helpers
  only hand a subtable to the two queries of \<^verbatim>\<open>substitution.ts\<close>,
  \<^verbatim>\<open>getIndividualSubstitutionGlyph\<close> and \<^verbatim>\<open>getRangeSubstitutionGlyphs\<close>.
  Both queries are parameters of the functions below (\<open>individualSub\<close> and
  \<open>rangeSub\<close>): the first returns a glyph or \<^verbatim>\<open>null\<close>, the second a
  JavaScript \<^verbatim>\<open>Map\<close>, kept as the list of its entries in insertion order.
\<close>

record SubstitutionLookupRecord =
  sequenceIndex :: int
  lookupListIndex :: int

record 't Lookup =
  subtables :: "'t list"

text \<open>
  \<^verbatim>\<open>lookups[i]\<close> is \<^verbatim>\<open>undefined\<close> when \<open>i\<close> is not an index of the
  array, and reading \<^verbatim>\<open>.subtables\<close> of \<^verbatim>\<open>undefined\<close> throws a
  \<^verbatim>\<open>TypeError\<close>. Nothing in the helpers catches it.
\<close>

datatype error = TypeError

definition lookupAt :: "'t Lookup list \<Rightarrow> int \<Rightarrow> 't Lookup option" where
  "lookupAt lookups i =
     (if 0 \<le> i \<and> i < int (length lookups) then Some (lookups ! nat i) else None)"

subsection \<open>getSubstitutionAtPosition\<close>

fun individualSubtables :: "('t \<Rightarrow> int \<Rightarrow> int option) \<Rightarrow> 't list \<Rightarrow> int \<Rightarrow> int option" where
  "individualSubtables individualSub [] glyphId = None"
| "individualSubtables individualSub (substitutionTable # rest) glyphId =
     (case individualSub substitutionTable glyphId of
        Some sub \<Rightarrow> Some sub
      | None \<Rightarrow> individualSubtables individualSub rest glyphId)"

fun individualRecords :: "('t \<Rightarrow> int \<Rightarrow> int option) \<Rightarrow> SubstitutionLookupRecord list
    \<Rightarrow> 't Lookup list \<Rightarrow> int \<Rightarrow> error + int option" where
  "individualRecords individualSub [] lookups glyphId = Inr None"
| "individualRecords individualSub (substitution # rest) lookups glyphId =
     (case lookupAt lookups (lookupListIndex substitution) of
        None \<Rightarrow> Inl TypeError
      | Some lookup \<Rightarrow>
          (case individualSubtables individualSub (subtables lookup) glyphId of
             Some sub \<Rightarrow> Inr (Some sub)
           | None \<Rightarrow> individualRecords individualSub rest lookups glyphId))"

definition getSubstitutionAtPosition :: "('t \<Rightarrow> int \<Rightarrow> int option)
    \<Rightarrow> SubstitutionLookupRecord list \<Rightarrow> 't Lookup list \<Rightarrow> int \<Rightarrow> int
    \<Rightarrow> error + int option" where
  "getSubstitutionAtPosition individualSub substitutions lookups index glyphId =
     individualRecords individualSub
       (filter (\<lambda>s. sequenceIndex s = index) substitutions) lookups glyphId"

subsection \<open>getSubstitutionAtPositionRange\<close>

type_synonym range_subs = "(glyph_spec \<times> int option) list"

fun rangeSubtables :: "('t \<Rightarrow> glyph_range \<Rightarrow> range_subs) \<Rightarrow> 't list \<Rightarrow> glyph_range
    \<Rightarrow> range_subs option" where
  "rangeSubtables rangeSub [] range' = None"
| "rangeSubtables rangeSub (substitutionTable # rest) range' =
     (let sub = rangeSub substitutionTable range'
      in if \<not> list_all (\<lambda>val. val \<noteq> None) (map snd sub)
         then Some sub
         else rangeSubtables rangeSub rest range')"

fun rangeRecords :: "('t \<Rightarrow> glyph_range \<Rightarrow> range_subs) \<Rightarrow> SubstitutionLookupRecord list
    \<Rightarrow> 't Lookup list \<Rightarrow> glyph_range \<Rightarrow> error + range_subs" where
  "rangeRecords rangeSub [] lookups range' = Inr [(Range range', None)]"
| "rangeRecords rangeSub (substitution # rest) lookups range' =
     (case lookupAt lookups (lookupListIndex substitution) of
        None \<Rightarrow> Inl TypeError
      | Some lookup \<Rightarrow>
          (case rangeSubtables rangeSub (subtables lookup) range' of
             Some sub \<Rightarrow> Inr sub
           | None \<Rightarrow> rangeRecords rangeSub rest lookups range'))"

definition getSubstitutionAtPositionRange :: "('t \<Rightarrow> glyph_range \<Rightarrow> range_subs)
    \<Rightarrow> SubstitutionLookupRecord list \<Rightarrow> 't Lookup list \<Rightarrow> int \<Rightarrow> glyph_range
    \<Rightarrow> error + range_subs" where
  "getSubstitutionAtPositionRange rangeSub substitutions lookups index range' =
     rangeRecords rangeSub
       (filter (\<lambda>s. sequenceIndex s = index) substitutions) lookups range'"

text \<open>
  The resolution order in the specification's words: the outputs of all subtables of all
  applicable lookups, in order, and the first of them that is not \<^verbatim>\<open>null\<close>.
\<close>

definition firstNonNull :: "'a option list \<Rightarrow> 'a option" where
  "firstNonNull vals = (case filter (\<lambda>val. val \<noteq> None) vals of [] \<Rightarrow> None | val # _ \<Rightarrow> val)"

definition applicableSubtables :: "SubstitutionLookupRecord list \<Rightarrow> 't Lookup list \<Rightarrow> int
    \<Rightarrow> 't list" where
  "applicableSubtables substitutions lookups index =
     concat (map (\<lambda>s. case lookupAt lookups (lookupListIndex s) of
                          None \<Rightarrow> [] | Some lookup \<Rightarrow> subtables lookup)
       (filter (\<lambda>s. sequenceIndex s = index) substitutions))"


definition passedRange :: "('t \<Rightarrow> glyph_range \<Rightarrow> range_subs) \<Rightarrow> 't Lookup list \<Rightarrow> glyph_range
    \<Rightarrow> SubstitutionLookupRecord \<Rightarrow> bool" where
  "passedRange rangeSub lookups r s \<longleftrightarrow>
     (\<exists>l. lookupAt lookups (lookupListIndex s) = Some l
        \<and> rangeSubtables rangeSub (subtables l) r = None)"

section \<open>The lookup tree\<close>

text \<open>
  A \<^verbatim>\<open>LookupTreeEntry\<close> is a JavaScript object with optional fields
  \<^verbatim>\<open>forward\<close> and \<^verbatim>\<open>reverse\<close>, each a \<^verbatim>\<open>LookupTree\<close>: an object
  with a \<^verbatim>\<open>Map\<close> from glyph IDs to entries, \<^verbatim>\<open>individual\<close>, and an array
  \<^verbatim>\<open>range\<close> of \<^verbatim>\<open>{entry, range}\<close> objects. The helpers create such
  objects and mutate them through references, so the objects live in a heap: an entry or a
  tree is referred to by its index in the heap, and a new object takes the next index. The
  \<^verbatim>\<open>Map\<close> is the list of its entries in insertion order; \<^verbatim>\<open>set\<close> on a key
  that is present replaces the value where it stands, which is \<^const>\<open>AList.update\<close>.
  The helpers touch no other field of an entry.
\<close>

type_synonym entry_ref = nat
type_synonym tree_ref = nat

record LookupTreeEntry =
  forward :: "tree_ref option"
  reverse :: "tree_ref option"

record LookupTree =
  individual :: "(int \<times> entry_ref) list"
  range' :: "(glyph_range \<times> entry_ref) list"

record heap =
  entries :: "LookupTreeEntry list"
  trees :: "LookupTree list"

record EntryMeta =
  entry :: entry_ref
  substitutions :: "int option list"

text \<open>The object literals \<^verbatim>\<open>{}\<close> and
  \<^verbatim>\<open>{ individual: new Map(), range: [] }\<close>.\<close>

definition newEntry :: "heap \<Rightarrow> entry_ref \<times> heap" where
  "newEntry h =
     (length (entries h), h\<lparr>entries := entries h @ [\<lparr>forward = None, reverse = None\<rparr>]\<rparr>)"

definition newTree :: "heap \<Rightarrow> tree_ref \<times> heap" where
  "newTree h =
     (length (trees h), h\<lparr>trees := trees h @ [\<lparr>individual = [], range' = []\<rparr>]\<rparr>)"

text \<open>The assignments \<^verbatim>\<open>e.forward = t\<close> and \<^verbatim>\<open>e.reverse = t\<close>.\<close>

definition setForward :: "entry_ref \<Rightarrow> tree_ref \<Rightarrow> heap \<Rightarrow> heap" where
  "setForward e t h = h\<lparr>entries := (entries h)[e := (entries h ! e)\<lparr>forward := Some t\<rparr>]\<rparr>"

definition setReverse :: "entry_ref \<Rightarrow> tree_ref \<Rightarrow> heap \<Rightarrow> heap" where
  "setReverse e t h = h\<lparr>entries := (entries h)[e := (entries h ! e)\<lparr>reverse := Some t\<rparr>]\<rparr>"

text \<open>\<^verbatim>\<open>tree.individual.set(glyph, entry)\<close>, \<^verbatim>\<open>tree.individual.get(glyph)\<close>
  and \<^verbatim>\<open>tree.range.push({ range, entry })\<close>.\<close>

definition individualSet :: "tree_ref \<Rightarrow> int \<Rightarrow> entry_ref \<Rightarrow> heap \<Rightarrow> heap" where
  "individualSet t glyph e h =
     h\<lparr>trees := (trees h)[t := (trees h ! t)
          \<lparr>individual := AList.update glyph e (individual (trees h ! t))\<rparr>]\<rparr>"

definition individualGet :: "tree_ref \<Rightarrow> int \<Rightarrow> heap \<Rightarrow> entry_ref option" where
  "individualGet t glyph h = map_of (individual (trees h ! t)) glyph"

definition rangePush :: "tree_ref \<Rightarrow> glyph_range \<Rightarrow> entry_ref \<Rightarrow> heap \<Rightarrow> heap" where
  "rangePush t r e h =
     h\<lparr>trees := (trees h)[t := (trees h ! t)\<lparr>range' := range' (trees h ! t) @ [(r, e)]\<rparr>]\<rparr>"

subsection \<open>getInputTree\<close>

text \<open>
  The loop over the entries of the range mapping. In the branch for a glyph ID the code
  stores a second new object in the map, not \<^verbatim>\<open>entry\<close>.
\<close>

fun inputTreeSubs :: "tree_ref \<Rightarrow> range_subs \<Rightarrow> heap \<Rightarrow> (entry_ref \<times> int option) list \<times> heap" where
  "inputTreeSubs tree [] h = ([], h)"
| "inputTreeSubs tree ((key, substitution) # subs) h =
     (let (entry', h1) = newEntry h;
          h2 = (case key of
                  Range r \<Rightarrow> rangePush tree r entry' h1
                | Single g \<Rightarrow> (let (child, h') = newEntry h1 in individualSet tree g child h'))
      in case inputTreeSubs tree subs h2 of
           (result, h3) \<Rightarrow> ((entry', substitution) # result, h3))"

definition getInputTree :: "('t \<Rightarrow> int \<Rightarrow> int option) \<Rightarrow> ('t \<Rightarrow> glyph_range \<Rightarrow> range_subs)
    \<Rightarrow> tree_ref \<Rightarrow> SubstitutionLookupRecord list \<Rightarrow> 't Lookup list \<Rightarrow> int \<Rightarrow> glyph_spec
    \<Rightarrow> heap \<Rightarrow> error + ((entry_ref \<times> int option) list \<times> heap)" where
  "getInputTree individualSub rangeSub tree substitutions' lookups inputIndex glyphId h =
     (case glyphId of
        Single g \<Rightarrow>
          (let (child, h1) = newEntry h;
               h2 = individualSet tree g child h1
           in case getSubstitutionAtPosition individualSub substitutions' lookups inputIndex g of
                Inl err \<Rightarrow> Inl err
              | Inr substitution \<Rightarrow> Inr ([(the (individualGet tree g h2), substitution)], h2))
      | Range r \<Rightarrow>
          (case getSubstitutionAtPositionRange rangeSub substitutions' lookups inputIndex r of
             Inl err \<Rightarrow> Inl err
           | Inr subs \<Rightarrow> Inr (inputTreeSubs tree subs h)))"

subsection \<open>processInputPosition\<close>

text \<open>
  The inner loop, over the deduplicated glyphs. It reads
  \<^verbatim>\<open>currentEntry.entry.forward\<close> from the heap at every iteration, as the code does.
\<close>

fun inputGlyphs :: "('t \<Rightarrow> int \<Rightarrow> int option) \<Rightarrow> ('t \<Rightarrow> glyph_range \<Rightarrow> range_subs)
    \<Rightarrow> glyph_spec list \<Rightarrow> int \<Rightarrow> EntryMeta \<Rightarrow> SubstitutionLookupRecord list \<Rightarrow> 't Lookup list
    \<Rightarrow> heap \<Rightarrow> error + (EntryMeta list \<times> heap)" where
  "inputGlyphs individualSub rangeSub [] position currentEntry lookupRecords lookups h =
     Inr ([], h)"
| "inputGlyphs individualSub rangeSub (glyph # glyphs) position currentEntry lookupRecords lookups h =
     (case getInputTree individualSub rangeSub
             (the (forward (entries h ! entry currentEntry)))
             lookupRecords lookups position glyph h of
        Inl err \<Rightarrow> Inl err
      | Inr (result, h1) \<Rightarrow>
          (case inputGlyphs individualSub rangeSub glyphs position currentEntry
                  lookupRecords lookups h1 of
             Inl err \<Rightarrow> Inl err
           | Inr (nextEntries, h2) \<Rightarrow>
               Inr (map (\<lambda>(entry', substitution).
                          \<lparr>entry = entry',
                           substitutions = substitutions currentEntry @ [substitution]\<rparr>) result
                    @ nextEntries, h2)))"

fun processInputPosition :: "('t \<Rightarrow> int \<Rightarrow> int option) \<Rightarrow> ('t \<Rightarrow> glyph_range \<Rightarrow> range_subs)
    \<Rightarrow> glyph_spec list \<Rightarrow> int \<Rightarrow> EntryMeta list \<Rightarrow> SubstitutionLookupRecord list
    \<Rightarrow> 't Lookup list \<Rightarrow> heap \<Rightarrow> error + (EntryMeta list \<times> heap)" where
  "processInputPosition individualSub rangeSub glyphs position [] lookupRecords lookups h =
     Inr ([], h)"
| "processInputPosition individualSub rangeSub glyphs position (currentEntry # rest)
       lookupRecords lookups h =
     (let (tree, h1) = newTree h;
          h2 = setForward (entry currentEntry) tree h1
      in case inputGlyphs individualSub rangeSub (dedupGlyphs glyphs) position currentEntry
                lookupRecords lookups h2 of
           Inl err \<Rightarrow> Inl err
         | Inr (entries1, h3) \<Rightarrow>
             (case processInputPosition individualSub rangeSub glyphs position rest
                     lookupRecords lookups h3 of
                Inl err \<Rightarrow> Inl err
              | Inr (entries2, h4) \<Rightarrow> Inr (entries1 @ entries2, h4)))"

subsection \<open>processLookaheadPosition and processBacktrackPosition\<close>

fun lookaheadGlyphs :: "glyph_spec list \<Rightarrow> EntryMeta \<Rightarrow> heap \<Rightarrow> EntryMeta list \<times> heap" where
  "lookaheadGlyphs [] currentEntry h = ([], h)"
| "lookaheadGlyphs (glyph # glyphs) currentEntry h =
     (let (entry', h1) = newEntry h;
          h2 = (if forward (entries h1 ! entry currentEntry) = None
                then (let (tree, h') = newTree h1 in setForward (entry currentEntry) tree h')
                else h1);
          h3 = (case glyph of
                  Range r \<Rightarrow> rangePush (the (forward (entries h2 ! entry currentEntry))) r entry' h2
                | Single g \<Rightarrow>
                    individualSet (the (forward (entries h2 ! entry currentEntry))) g entry' h2)
      in case lookaheadGlyphs glyphs currentEntry h3 of
           (nextEntries, h4) \<Rightarrow>
             (\<lparr>entry = entry', substitutions = substitutions currentEntry\<rparr> # nextEntries, h4))"

fun processLookaheadPosition :: "glyph_spec list \<Rightarrow> EntryMeta list \<Rightarrow> heap
    \<Rightarrow> EntryMeta list \<times> heap" where
  "processLookaheadPosition glyphs [] h = ([], h)"
| "processLookaheadPosition glyphs (currentEntry # rest) h =
     (case lookaheadGlyphs (dedupGlyphs glyphs) currentEntry h of
        (entries1, h1) \<Rightarrow>
          (case processLookaheadPosition glyphs rest h1 of
             (entries2, h2) \<Rightarrow> (entries1 @ entries2, h2)))"

fun backtrackGlyphs :: "glyph_spec list \<Rightarrow> EntryMeta \<Rightarrow> heap \<Rightarrow> EntryMeta list \<times> heap" where
  "backtrackGlyphs [] currentEntry h = ([], h)"
| "backtrackGlyphs (glyph # glyphs) currentEntry h =
     (let (entry', h1) = newEntry h;
          h2 = (if reverse (entries h1 ! entry currentEntry) = None
                then (let (tree, h') = newTree h1 in setReverse (entry currentEntry) tree h')
                else h1);
          h3 = (case glyph of
                  Range r \<Rightarrow> rangePush (the (reverse (entries h2 ! entry currentEntry))) r entry' h2
                | Single g \<Rightarrow>
                    individualSet (the (reverse (entries h2 ! entry currentEntry))) g entry' h2)
      in case backtrackGlyphs glyphs currentEntry h3 of
           (nextEntries, h4) \<Rightarrow>
             (\<lparr>entry = entry', substitutions = substitutions currentEntry\<rparr> # nextEntries, h4))"

fun processBacktrackPosition :: "glyph_spec list \<Rightarrow> EntryMeta list \<Rightarrow> heap
    \<Rightarrow> EntryMeta list \<times> heap" where
  "processBacktrackPosition glyphs [] h = ([], h)"
| "processBacktrackPosition glyphs (currentEntry # rest) h =
     (case backtrackGlyphs (dedupGlyphs glyphs) currentEntry h of
        (entries1, h1) \<Rightarrow>
          (case processBacktrackPosition glyphs rest h1 of
             (entries2, h2) \<Rightarrow> (entries1 @ entries2, h2)))"

subsection \<open>Derived notions\<close>

text \<open>
  The heap after one round of the loop of \<^verbatim>\<open>getInputTree\<close> over a range mapping,
  for a range key and for a glyph key; the entries a tree's \<^verbatim>\<open>individual\<close> map
  refers to; and the pairs that the loop pushed on the tree's \<^verbatim>\<open>range\<close> list,
  read off the mapping and the returned list.
\<close>

definition afterRangeKey :: "tree_ref \<Rightarrow> glyph_range \<Rightarrow> heap \<Rightarrow> heap" where
  "afterRangeKey tree r h = rangePush tree r (length (entries h)) (snd (newEntry h))"

definition afterGlyphKey :: "tree_ref \<Rightarrow> int \<Rightarrow> heap \<Rightarrow> heap" where
  "afterGlyphKey tree g h =
     individualSet tree g (Suc (length (entries h))) (snd (newEntry (snd (newEntry h))))"

definition afterKey :: "tree_ref \<Rightarrow> glyph_spec \<Rightarrow> heap \<Rightarrow> heap" where
  "afterKey tree key h =
     (case key of Range r \<Rightarrow> afterRangeKey tree r h | Single g \<Rightarrow> afterGlyphKey tree g h)"

definition children :: "tree_ref \<Rightarrow> heap \<Rightarrow> entry_ref set" where
  "children tree h = snd ` set (individual (trees h ! tree))"

definition linkedRanges :: "range_subs \<Rightarrow> (entry_ref \<times> int option) list
    \<Rightarrow> (glyph_range \<times> entry_ref) list" where
  "linkedRanges subs result =
     concat (map (\<lambda>((key, substitution), (e, substitution')).
                    case key of Range r \<Rightarrow> [(r, e)] | Single g \<Rightarrow> [])
              (zip subs result))"

text \<open>
  How a call of \<^verbatim>\<open>getInputTree\<close> on the tree \<open>t\<close> changes the heap: new entries
  without branch-points are appended, no tree is created, only \<open>t\<close> changes, and what
  \<open>t\<close> refers to afterwards is what it referred to before or a new entry. And what one
  call of \<^verbatim>\<open>processInputPosition\<close> establishes, the invariant of its outer loop.
\<close>

definition grows :: "tree_ref \<Rightarrow> heap \<Rightarrow> heap \<Rightarrow> bool" where
  "grows t h h' \<longleftrightarrow>
     (\<exists>n. entries h' = entries h @ replicate n \<lparr>forward = None, reverse = None\<rparr>)
     \<and> length (trees h') = length (trees h)
     \<and> (\<forall>t'. t' \<noteq> t \<longrightarrow> trees h' ! t' = trees h ! t')
     \<and> (\<forall>c \<in> children t h'. c \<in> children t h
            \<or> (length (entries h) \<le> c \<and> c < length (entries h')))
     \<and> (\<forall>e \<in> snd ` set (range' (trees h' ! t)). e \<in> snd ` set (range' (trees h ! t))
            \<or> (length (entries h) \<le> e \<and> e < length (entries h')))"

definition inputStep :: "glyph_spec list \<Rightarrow> EntryMeta list \<Rightarrow> heap \<Rightarrow> EntryMeta list \<Rightarrow> heap \<Rightarrow> bool" where
  "inputStep glyphs cur h nextEntries h' \<longleftrightarrow>
     length (entries h) \<le> length (entries h')
     \<and> (\<forall>e < length (entries h). reverse (entries h' ! e) = reverse (entries h ! e)
            \<and> (e \<notin> entry ` set cur \<longrightarrow> entries h' ! e = entries h ! e))
     \<and> length (trees h) \<le> length (trees h')
     \<and> (\<forall>t < length (trees h). trees h' ! t = trees h ! t)
     \<and> (\<forall>m \<in> set nextEntries. length (entries h) \<le> entry m \<and> entry m < length (entries h'))
     \<and> (\<forall>c \<in> set cur. \<exists>t. forward (entries h' ! entry c) = Some t
            \<and> length (trees h) \<le> t \<and> t < length (trees h')
            \<and> (\<forall>x \<in> children t h'. length (entries h) \<le> x \<and> x < length (entries h'))
            \<and> (\<forall>x \<in> snd ` set (range' (trees h' ! t)).
                  length (entries h) \<le> x \<and> x < length (entries h'))
            \<and> (glyphs = [] \<longrightarrow> trees h' ! t = \<lparr>individual = [], range' = []\<rparr>))"

subsection \<open>The common shape of the two context steps\<close>

text \<open>
  \<^verbatim>\<open>processLookaheadPosition\<close> and \<^verbatim>\<open>processBacktrackPosition\<close> are the same
  code up to the field they work on, \<^verbatim>\<open>forward\<close> or \<^verbatim>\<open>reverse\<close>. The
  properties of both are proved once, for the loops below, which take the field as a
  parameter and are shown equal to the two functions above.
\<close>

datatype direction = Forward | Reverse

definition branch :: "direction \<Rightarrow> LookupTreeEntry \<Rightarrow> tree_ref option" where
  "branch d e = (case d of Forward \<Rightarrow> forward e | Reverse \<Rightarrow> reverse e)"

definition opposite :: "direction \<Rightarrow> direction" where
  "opposite d = (case d of Forward \<Rightarrow> Reverse | Reverse \<Rightarrow> Forward)"

definition setBranch :: "direction \<Rightarrow> entry_ref \<Rightarrow> tree_ref \<Rightarrow> heap \<Rightarrow> heap" where
  "setBranch d e t h = (case d of Forward \<Rightarrow> setForward e t h | Reverse \<Rightarrow> setReverse e t h)"

fun contextGlyphs :: "direction \<Rightarrow> glyph_spec list \<Rightarrow> EntryMeta \<Rightarrow> heap \<Rightarrow> EntryMeta list \<times> heap" where
  "contextGlyphs d [] currentEntry h = ([], h)"
| "contextGlyphs d (glyph # glyphs) currentEntry h =
     (let (entry', h1) = newEntry h;
          h2 = (if branch d (entries h1 ! entry currentEntry) = None
                then (let (tree, h') = newTree h1 in setBranch d (entry currentEntry) tree h')
                else h1);
          h3 = (case glyph of
                  Range r \<Rightarrow> rangePush (the (branch d (entries h2 ! entry currentEntry))) r entry' h2
                | Single g \<Rightarrow>
                    individualSet (the (branch d (entries h2 ! entry currentEntry))) g entry' h2)
      in case contextGlyphs d glyphs currentEntry h3 of
           (nextEntries, h4) \<Rightarrow>
             (\<lparr>entry = entry', substitutions = substitutions currentEntry\<rparr> # nextEntries, h4))"

fun processContextPosition :: "direction \<Rightarrow> glyph_spec list \<Rightarrow> EntryMeta list \<Rightarrow> heap
    \<Rightarrow> EntryMeta list \<times> heap" where
  "processContextPosition d glyphs [] h = ([], h)"
| "processContextPosition d glyphs (currentEntry # rest) h =
     (case contextGlyphs d (dedupGlyphs glyphs) currentEntry h of
        (entries1, h1) \<Rightarrow>
          (case processContextPosition d glyphs rest h1 of
             (entries2, h2) \<Rightarrow> (entries1 @ entries2, h2)))"

definition withBranch :: "direction \<Rightarrow> tree_ref \<Rightarrow> LookupTreeEntry \<Rightarrow> LookupTreeEntry" where
  "withBranch d t e = (case d of Forward \<Rightarrow> e\<lparr>forward := Some t\<rparr> | Reverse \<Rightarrow> e\<lparr>reverse := Some t\<rparr>)"

text \<open>
  What the loop over the candidates of one current entry does to that entry's branch-point:
  the candidates are linked, in order, to consecutive new entries, the first of which is
  \<open>a\<close>. A range is pushed on the \<^verbatim>\<open>range\<close> list; a glyph is set in the
  \<^verbatim>\<open>individual\<close> map, where it replaces the child the map held for that glyph.
\<close>

fun linkGlyphs :: "glyph_spec list \<Rightarrow> entry_ref \<Rightarrow> LookupTree \<Rightarrow> LookupTree" where
  "linkGlyphs [] a tree = tree"
| "linkGlyphs (Range r # glyphs) a tree =
     linkGlyphs glyphs (Suc a) (tree\<lparr>range' := range' tree @ [(r, a)]\<rparr>)"
| "linkGlyphs (Single g # glyphs) a tree =
     linkGlyphs glyphs (Suc a) (tree\<lparr>individual := AList.update g a (individual tree)\<rparr>)"

text \<open>
  The current entries of a step are separate when they are different existing entries, the
  branch-points they have exist, and no two of them have the same branch-point. The builder
  only ever hands on entries it has just created, or the root.
\<close>

definition separate :: "direction \<Rightarrow> EntryMeta list \<Rightarrow> heap \<Rightarrow> bool" where
  "separate d cur h \<longleftrightarrow>
     distinct (map entry cur)
     \<and> (\<forall>c \<in> set cur. entry c < length (entries h)
           \<and> (\<forall>t. branch d (entries h ! entry c) = Some t \<longrightarrow>
                 t < length (trees h)
                 \<and> (\<forall>c' \<in> set cur. entry c' \<noteq> entry c \<longrightarrow>
                       branch d (entries h ! entry c') \<noteq> Some t)))"

text \<open>
  What a context step does, for current entries \<open>cur\<close> and deduplicated candidates
  \<open>gs\<close>: it returns one new entry per current entry and candidate, in the order of the
  loops, with the substitutions of the current entry; the new entries have no branch-point;
  entries that are not current and trees that are no current entry's branch-point keep
  their value; a current entry keeps its other branch-point; a branch-point it has is kept
  and gets the candidates linked; one it lacks is created, unless there is no candidate,
  and is the empty tree with the candidates linked.
\<close>

definition contextStep :: "direction \<Rightarrow> glyph_spec list \<Rightarrow> EntryMeta list \<Rightarrow> heap
    \<Rightarrow> EntryMeta list \<Rightarrow> heap \<Rightarrow> bool" where
  "contextStep d gs cur h nextEntries h' \<longleftrightarrow>
     length nextEntries = length cur * length gs
     \<and> length (entries h') = length (entries h) + length cur * length gs
     \<and> length (trees h) \<le> length (trees h')
     \<and> (\<forall>x < length (entries h). x \<notin> entry ` set cur \<longrightarrow> entries h' ! x = entries h ! x)
     \<and> (\<forall>x. length (entries h) \<le> x \<and> x < length (entries h) + length cur * length gs \<longrightarrow>
            entries h' ! x = \<lparr>forward = None, reverse = None\<rparr>)
     \<and> (\<forall>t < length (trees h). (\<forall>c \<in> set cur. branch d (entries h ! entry c) \<noteq> Some t) \<longrightarrow>
            trees h' ! t = trees h ! t)
     \<and> (\<forall>i < length cur.
           (\<forall>j < length gs. nextEntries ! (i * length gs + j)
               = \<lparr>entry = length (entries h) + i * length gs + j,
                  substitutions = substitutions (cur ! i)\<rparr>)
           \<and> branch (opposite d) (entries h' ! entry (cur ! i))
               = branch (opposite d) (entries h ! entry (cur ! i))
           \<and> (case branch d (entries h ! entry (cur ! i)) of
                 Some t \<Rightarrow>
                   branch d (entries h' ! entry (cur ! i)) = Some t
                   \<and> trees h' ! t
                       = linkGlyphs gs (length (entries h) + i * length gs) (trees h ! t)
               | None \<Rightarrow>
                   if gs = [] then branch d (entries h' ! entry (cur ! i)) = None
                   else (\<exists>t. branch d (entries h' ! entry (cur ! i)) = Some t
                          \<and> length (trees h) \<le> t \<and> t < length (trees h')
                          \<and> trees h' ! t
                              = linkGlyphs gs (length (entries h) + i * length gs)
                                  \<lparr>individual = [], range' = []\<rparr>)))"

section \<open>Example data\<close>

text \<open>
  A tree compiled for the glyph sequence 65, 66: the root entry 0 leads through glyph 65 to
  entry 1, which leads through glyph 66 to entry 2. One lookup with one subtable, an
  association list that substitutes 66 for 65, applies at position 0. The range query of
  the example answers for the first glyph of the range what the subtable says and maps the
  rest of the range to \<^verbatim>\<open>null\<close>.
\<close>

definition exampleHeap :: heap where
  "exampleHeap =
     \<lparr>entries = [\<lparr>forward = Some 0, reverse = None\<rparr>, \<lparr>forward = Some 1, reverse = None\<rparr>,
                 \<lparr>forward = None, reverse = None\<rparr>],
      trees = [\<lparr>individual = [(65, 1)], range' = []\<rparr>, \<lparr>individual = [(66, 2)], range' = []\<rparr>]\<rparr>"

definition exampleRecords :: "SubstitutionLookupRecord list" where
  "exampleRecords = [\<lparr>sequenceIndex = 0, lookupListIndex = 0\<rparr>]"

definition exampleLookups :: "(int \<times> int) list Lookup list" where
  "exampleLookups = [\<lparr>subtables = [[(65, 66)]]\<rparr>]"

definition exampleRangeSub :: "(int \<times> int) list \<Rightarrow> glyph_range \<Rightarrow> range_subs" where
  "exampleRangeSub table r =
     [(Single (fst r), map_of table (fst r)), (Range (fst r + 1, snd r), None)]"

text \<open>
  The heap with the root entry alone, from which the example tree is compiled, and the
  example tree after the rule's first input position has been processed once more from
  the root.
\<close>

definition rootHeap :: heap where
  "rootHeap = \<lparr>entries = [\<lparr>forward = None, reverse = None\<rparr>], trees = []\<rparr>"

definition exampleHeapAgain :: heap where
  "exampleHeapAgain =
     \<lparr>entries = [\<lparr>forward = Some 2, reverse = None\<rparr>, \<lparr>forward = Some 1, reverse = None\<rparr>,
                 \<lparr>forward = None, reverse = None\<rparr>, \<lparr>forward = None, reverse = None\<rparr>],
      trees = [\<lparr>individual = [(65, 1)], range' = []\<rparr>, \<lparr>individual = [(66, 2)], range' = []\<rparr>,
               \<lparr>individual = [(65, 3)], range' = []\<rparr>]\<rparr>"

text \<open>
  A root entry whose reverse branch-point leads through glyph 65 to entry 1 and through the
  range 10 to 20 to entry 2.
\<close>

definition exampleReverseHeap :: heap where
  "exampleReverseHeap =
     \<lparr>entries = [\<lparr>forward = None, reverse = Some 0\<rparr>, \<lparr>forward = None, reverse = None\<rparr>,
                 \<lparr>forward = None, reverse = None\<rparr>],
      trees = [\<lparr>individual = [(65, 1)], range' = [((10, 20), 2)]\<rparr>]\<rparr>"

text \<open>
  The example tree after an input position with the candidate 70 has been processed for the
  two current entries 0 and 1.
\<close>

definition exampleHeapBoth :: heap where
  "exampleHeapBoth =
     \<lparr>entries = [\<lparr>forward = Some 2, reverse = None\<rparr>, \<lparr>forward = Some 3, reverse = None\<rparr>,
                 \<lparr>forward = None, reverse = None\<rparr>, \<lparr>forward = None, reverse = None\<rparr>,
                 \<lparr>forward = None, reverse = None\<rparr>],
      trees = [\<lparr>individual = [(65, 1)], range' = []\<rparr>, \<lparr>individual = [(66, 2)], range' = []\<rparr>,
               \<lparr>individual = [(70, 3)], range' = []\<rparr>, \<lparr>individual = [(70, 4)], range' = []\<rparr>]\<rparr>"

section \<open>Properties of dedupGlyphs\<close>

lemma firstOccurrences_snoc:
  "firstOccurrences (xs @ [x]) = firstOccurrences xs @ (if x \<in> set xs then [] else [x])"
proof -
  define ys where "ys = xs @ [x]"
  have a: "filter (\<lambda>i. ys ! i \<notin> set (take i ys)) [0..<length xs]
         = filter (\<lambda>i. xs ! i \<notin> set (take i xs)) [0..<length xs]"
    unfolding ys_def by (rule filter_cong) (auto simp: nth_append)
  have b: "map (\<lambda>i. ys ! i) (filter (\<lambda>i. xs ! i \<notin> set (take i xs)) [0..<length xs])
         = map (\<lambda>i. xs ! i) (filter (\<lambda>i. xs ! i \<notin> set (take i xs)) [0..<length xs])"
    unfolding ys_def by (rule map_cong) (auto simp: nth_append)
  have c: "ys ! length xs = x" "take (length xs) ys = xs" "length ys = Suc (length xs)"
    unfolding ys_def by simp_all
  have "firstOccurrences ys = firstOccurrences xs @ (if x \<in> set xs then [] else [x])"
    unfolding firstOccurrences_def c upt_Suc_append [OF le0] filter_append map_append a b
    by (simp add: c)
  then show ?thesis by (simp add: ys_def)
qed

lemma firstOccurrences_Nil: "firstOccurrences [] = []"
  by (simp add: firstOccurrences_def)

lemma set_firstOccurrences: "set (firstOccurrences xs) = set xs"
  by (induction xs rule: rev_induct) (auto simp: firstOccurrences_snoc firstOccurrences_Nil)

lemma distinct_firstOccurrences: "distinct (firstOccurrences xs)"
  by (induction xs rule: rev_induct)
     (auto simp: firstOccurrences_snoc firstOccurrences_Nil set_firstOccurrences)

lemma firstOccurrences_distinct: "distinct xs \<Longrightarrow> firstOccurrences xs = xs"
  by (induction xs rule: rev_induct) (auto simp: firstOccurrences_snoc firstOccurrences_Nil)

lemma dedupLoop_firstOccurrences:
  "result = firstOccurrences pre \<Longrightarrow> singleGlyphs = {g. Single g \<in> set pre}
   \<Longrightarrow> set pairGlyphs = {r. Range r \<in> set pre}
   \<Longrightarrow> dedupLoop glyphs result singleGlyphs pairGlyphs = firstOccurrences (pre @ glyphs)"
proof (induction glyphs arbitrary: result singleGlyphs pairGlyphs pre)
  case Nil
  then show ?case by simp
next
  case (Cons x glyphs)
  show ?case
  proof (cases x)
    case (Single g)
    have "dedupLoop glyphs (firstOccurrences (pre @ [x]))
            {g. Single g \<in> set (pre @ [x])} pairGlyphs = firstOccurrences ((pre @ [x]) @ glyphs)"
      by (rule Cons.IH) (use Cons.prems Single in auto)
    moreover have "{g. Single g \<in> set (pre @ [x])} = insert g singleGlyphs"
      using Cons.prems Single by auto
    ultimately show ?thesis
      using Cons.prems Single by (auto simp: firstOccurrences_snoc insert_absorb)
  next
    case (Range r)
    have found: "list_ex (\<lambda>pair. fst pair = fst r \<and> snd pair = snd r) pairGlyphs
                 \<longleftrightarrow> Range r \<in> set pre"
      using Cons.prems(3) by (auto simp: list_ex_iff prod_eq_iff)
    have "dedupLoop glyphs (firstOccurrences (pre @ [x])) singleGlyphs
            (if Range r \<in> set pre then pairGlyphs else pairGlyphs @ [r])
          = firstOccurrences ((pre @ [x]) @ glyphs)"
      by (rule Cons.IH) (use Cons.prems Range in auto)
    then show ?thesis
      using Cons.prems Range found by (auto simp: firstOccurrences_snoc Let_def)
  qed
qed

lemma dedupGlyphs_firstOccurrences: "dedupGlyphs glyphs = firstOccurrences glyphs"
proof (cases "length glyphs < 2")
  case True
  then have "distinct glyphs"
    by (cases glyphs) (auto simp: less_Suc_eq)
  then show ?thesis using True by (simp add: dedupGlyphs_def firstOccurrences_distinct)
next
  case False
  then show ?thesis
    using dedupLoop_firstOccurrences [of "[]" "[]" "{}" "[]" glyphs]
    by (simp add: dedupGlyphs_def firstOccurrences_Nil)
qed

text \<open>
  Claim C4 (deduplicator contract). For every list of glyph specs, \<^verbatim>\<open>dedupGlyphs\<close>
  returns a list without repetition, with the same set of values as its input, in which
  every value stands where it first occurred in the input; a list of length 0 or 1 is
  returned as it is. Equality of values is equality of the glyph ID for singles and of
  both bounds for ranges, and a single never equals a range.
\<close>

theorem dedupGlyphs_contract:
  "distinct (dedupGlyphs glyphs)
   \<and> set (dedupGlyphs glyphs) = set glyphs
   \<and> dedupGlyphs glyphs = firstOccurrences glyphs
   \<and> (length glyphs < 2 \<longrightarrow> dedupGlyphs glyphs = glyphs)
   \<and> (Range (lo, hi) = Range (lo', hi') \<longleftrightarrow> lo = lo' \<and> hi = hi')
   \<and> (Single g = Single g' \<longleftrightarrow> g = g')
   \<and> Single g \<noteq> Range (lo, hi)"
proof -
  have "length glyphs < 2 \<Longrightarrow> dedupGlyphs glyphs = glyphs"
    by (simp add: dedupGlyphs_def)
  then show ?thesis
    by (simp add: dedupGlyphs_firstOccurrences distinct_firstOccurrences set_firstOccurrences)
qed

theorem dedupGlyphs_contract_witness:
  "dedupGlyphs [Single 3, Range (1, 2), Single 3, Range (1, 2), Single 4, Range (1, 3)]
     = [Single 3, Range (1, 2), Single 4, Range (1, 3)]
   \<and> distinct (dedupGlyphs [Single 3, Range (1, 2), Single 3, Range (1, 2), Single 4, Range (1, 3)])
   \<and> length [Range (5, 9)] < 2 \<and> dedupGlyphs [Range (5, 9)] = [Range (5, 9)]"
  using dedupGlyphs_contract [of "[Single 3, Range (1, 2), Single 3, Range (1, 2), Single 4, Range (1, 3)]"]
    dedupGlyphs_contract [of "[Range (5, 9)]"]
  by (simp add: dedupGlyphs_def)

text \<open>
  Claim C10 (idempotence). Deduplicating twice is deduplicating once, and a list that has
  no two equal elements is returned unchanged.
\<close>

theorem dedupGlyphs_idempotent:
  "dedupGlyphs (dedupGlyphs glyphs) = dedupGlyphs glyphs
   \<and> (distinct glyphs \<longrightarrow> dedupGlyphs glyphs = glyphs)"
  by (simp add: dedupGlyphs_firstOccurrences firstOccurrences_distinct distinct_firstOccurrences)

theorem dedupGlyphs_idempotent_witness:
  "distinct [Single 3, Range (1, 2), Single 4]
   \<and> dedupGlyphs [Single 3, Range (1, 2), Single 4] = [Single 3, Range (1, 2), Single 4]
   \<and> dedupGlyphs (dedupGlyphs [Single 3, Single 3, Range (1, 2)]) = [Single 3, Range (1, 2)]"
  using dedupGlyphs_idempotent [of "[Single 3, Range (1, 2), Single 4]"]
    dedupGlyphs_idempotent [of "[Single 3, Single 3, Range (1, 2)]"]
  by (simp add: dedupGlyphs_def)

section \<open>Properties of the substitution resolver\<close>

lemma firstNonNull_simps:
  "firstNonNull [] = None"
  "firstNonNull (None # vs) = firstNonNull vs"
  "firstNonNull (Some v # vs) = Some v"
  by (simp_all add: firstNonNull_def)

lemma firstNonNull_append:
  "firstNonNull (us @ vs) = (case firstNonNull us of Some v \<Rightarrow> Some v | None \<Rightarrow> firstNonNull vs)"
proof (induction us)
  case Nil
  then show ?case by (simp add: firstNonNull_simps split: option.splits)
next
  case (Cons u us)
  then show ?case by (cases u) (simp_all add: firstNonNull_simps)
qed

lemma individualSubtables_firstNonNull:
  "individualSubtables individualSub sts g = firstNonNull (map (\<lambda>st. individualSub st g) sts)"
  by (induction sts) (auto simp: firstNonNull_simps split: option.splits)

lemma individualRecords_valid:
  "\<forall>s \<in> set recs. lookupAt lookups (lookupListIndex s) \<noteq> None \<Longrightarrow>
   individualRecords individualSub recs lookups g
   = Inr (firstNonNull (map (\<lambda>st. individualSub st g)
       (concat (map (\<lambda>s. case lookupAt lookups (lookupListIndex s) of
                          None \<Rightarrow> [] | Some lookup \<Rightarrow> subtables lookup) recs))))"
  by (induction recs)
     (auto simp: firstNonNull_simps firstNonNull_append individualSubtables_firstNonNull
           split: option.splits)







lemma rangeSubtables_None_iff:
  "rangeSubtables rangeSub sts r = None \<longleftrightarrow>
     (\<forall>st \<in> set sts. None \<notin> snd ` set (rangeSub st r))"
  by (induction sts) (force simp: Let_def list_all_iff split: if_splits)+



lemma individualRecords_returns:
  "individualRecords individualSub recs lookups g = Inr v \<Longrightarrow>
   v = firstNonNull (map (\<lambda>st. individualSub st g)
       (concat (map (\<lambda>s. case lookupAt lookups (lookupListIndex s) of
                          None \<Rightarrow> [] | Some lookup \<Rightarrow> subtables lookup) recs)))"
proof (induction recs)
  case Nil
  then show ?case by (simp add: firstNonNull_simps)
next
  case (Cons s recs)
  from Cons.prems obtain l where l: "lookupAt lookups (lookupListIndex s) = Some l"
    by (cases "lookupAt lookups (lookupListIndex s)") simp_all
  show ?case
  proof (cases "individualSubtables individualSub (subtables l) g")
    case None
    with Cons l show ?thesis
      by (simp add: firstNonNull_append individualSubtables_firstNonNull [symmetric])
  next
    case (Some w)
    with Cons.prems l show ?thesis
      by (auto simp: firstNonNull_append individualSubtables_firstNonNull [symmetric])
  qed
qed

text \<open>
  Claim C5 (single-glyph resolution order). \<^verbatim>\<open>getSubstitutionAtPosition\<close> looks only
  at the records whose \<^verbatim>\<open>sequenceIndex\<close> is the position, in the order of the
  record list, and at the subtables of each record's lookup in order; it returns the first
  output that is not \<^verbatim>\<open>null\<close>, and \<^verbatim>\<open>null\<close> when there is none: it does so
  when the lookups of all applicable records exist, and whatever it returns is that value.
  In particular, when the first applicable record's lookup substitutes the glyph, that
  output is the result, whatever the later records hold.
\<close>

theorem getSubstitutionAtPosition_order:
  "((\<forall>s \<in> set (filter (\<lambda>s. sequenceIndex s = index) substitutions').
        lookupAt lookups (lookupListIndex s) \<noteq> None) \<longrightarrow>
      getSubstitutionAtPosition individualSub substitutions' lookups index glyphId
      = Inr (firstNonNull (map (\<lambda>st. individualSub st glyphId)
               (applicableSubtables substitutions' lookups index))))
   \<and> (getSubstitutionAtPosition individualSub substitutions' lookups index glyphId = Inr sub \<longrightarrow>
      sub = firstNonNull (map (\<lambda>st. individualSub st glyphId)
               (applicableSubtables substitutions' lookups index)))
   \<and> (filter (\<lambda>s. sequenceIndex s = index) substitutions' = s1 # rest
        \<and> lookupAt lookups (lookupListIndex s1) = Some l1
        \<and> firstNonNull (map (\<lambda>st. individualSub st glyphId) (subtables l1)) = Some out \<longrightarrow>
      getSubstitutionAtPosition individualSub substitutions' lookups index glyphId
      = Inr (Some out))"
  using individualRecords_returns [of individualSub
      "filter (\<lambda>s. sequenceIndex s = index) substitutions'" lookups glyphId sub]
  by (simp add: getSubstitutionAtPosition_def applicableSubtables_def individualRecords_valid
        individualSubtables_firstNonNull)

theorem getSubstitutionAtPosition_order_witness:
  "list_all (\<lambda>s. lookupAt [\<lparr>subtables = [[(65, 70)]]\<rparr>, \<lparr>subtables = [[(66, 67)], [(65, 66)]]\<rparr>]
                    (lookupListIndex s) \<noteq> None)
     (filter (\<lambda>s. sequenceIndex s = 0)
        [\<lparr>sequenceIndex = 0, lookupListIndex = 1\<rparr>, \<lparr>sequenceIndex = 1, lookupListIndex = 5\<rparr>,
         \<lparr>sequenceIndex = 0, lookupListIndex = 0\<rparr>])
   \<and> getSubstitutionAtPosition map_of
        [\<lparr>sequenceIndex = 0, lookupListIndex = 1\<rparr>, \<lparr>sequenceIndex = 1, lookupListIndex = 5\<rparr>,
         \<lparr>sequenceIndex = 0, lookupListIndex = 0\<rparr>]
        [\<lparr>subtables = [[(65, 70)]]\<rparr>, \<lparr>subtables = [[(66, 67)], [(65, 66)]]\<rparr>] 0 65
      = Inr (Some (66 :: int))
   \<and> getSubstitutionAtPosition map_of
        [\<lparr>sequenceIndex = 0, lookupListIndex = 1\<rparr>, \<lparr>sequenceIndex = 1, lookupListIndex = 5\<rparr>,
         \<lparr>sequenceIndex = 0, lookupListIndex = 0\<rparr>]
        [\<lparr>subtables = [[(65, 70)]]\<rparr>, \<lparr>subtables = [[(66, 67)], [(65, 66)]]\<rparr>] 0 64
      = Inr None"
  using getSubstitutionAtPosition_order [of 0
        "[\<lparr>sequenceIndex = 0, lookupListIndex = 1\<rparr>, \<lparr>sequenceIndex = 1, lookupListIndex = 5\<rparr>,
         \<lparr>sequenceIndex = 0, lookupListIndex = 0\<rparr>]"
        "[\<lparr>subtables = [[(65, 70)]]\<rparr>, \<lparr>subtables = [[(66, 67)], [(65, 66)]]\<rparr>]"
        map_of 65 "Some 66"]
    getSubstitutionAtPosition_order [of 0
        "[\<lparr>sequenceIndex = 0, lookupListIndex = 1\<rparr>, \<lparr>sequenceIndex = 1, lookupListIndex = 5\<rparr>,
         \<lparr>sequenceIndex = 0, lookupListIndex = 0\<rparr>]"
        "[\<lparr>subtables = [[(65, 70)]]\<rparr>, \<lparr>subtables = [[(66, 67)], [(65, 66)]]\<rparr>]"
        map_of 64 None]
  by (simp add: lookupAt_def applicableSubtables_def firstNonNull_def)


lemma rangeRecords_passed:
  "\<forall>s \<in> set recs. passedRange rangeSub lookups r s \<Longrightarrow>
   rangeRecords rangeSub recs lookups r = Inr [(Range r, None)]"
  by (induction recs) (auto simp: passedRange_def)

lemma rangeRecords_all_substituted:
  "\<forall>s \<in> set recs. \<exists>l. lookupAt lookups (lookupListIndex s) = Some l
      \<and> (\<forall>st \<in> set (subtables l). None \<notin> snd ` set (rangeSub st r)) \<Longrightarrow>
   rangeRecords rangeSub recs lookups r = Inr [(Range r, None)]"
  by (rule rangeRecords_passed) (simp add: passedRange_def rangeSubtables_None_iff)




text \<open>
  Claim C1 (range resolution). The claim's first case does not hold on the code: the test
  \<^verbatim>\<open>!Array.from(sub.values()).every(val => val !== null)\<close> accepts a subtable's answer
  when some value of it is \<^verbatim>\<open>null\<close>, so an answer that substitutes the whole
  range is passed over, and with no other lookup the range comes back as not substituted.
  The single-glyph resolver returns the substitution for a glyph of the same table.
\<close>

theorem getSubstitutionAtPositionRange_all_substituted:
  "getSubstitutionAtPositionRange (\<lambda>st r. st) [\<lparr>sequenceIndex = 0, lookupListIndex = 0\<rparr>]
     [\<lparr>subtables = [[(Range (10, 20), Some 11)]]\<rparr>] 0 (10, 20)
   = Inr [(Range (10, 20), None)]
   \<and> getSubstitutionAtPosition map_of [\<lparr>sequenceIndex = 0, lookupListIndex = 0\<rparr>]
     [\<lparr>subtables = [[(10, 11 :: int)]]\<rparr>] 0 10
   = Inr (Some 11)"
  by (simp add: getSubstitutionAtPositionRange_def getSubstitutionAtPosition_def lookupAt_def)

section \<open>Properties of the tree builder\<close>

subsection \<open>Heap primitives\<close>

lemma newEntry_simps [simp]:
  "fst (newEntry h) = length (entries h)"
  "entries (snd (newEntry h)) = entries h @ [\<lparr>forward = None, reverse = None\<rparr>]"
  "trees (snd (newEntry h)) = trees h"
  by (simp_all add: newEntry_def)

lemma newTree_simps [simp]:
  "fst (newTree h) = length (trees h)"
  "trees (snd (newTree h)) = trees h @ [\<lparr>individual = [], range' = []\<rparr>]"
  "entries (snd (newTree h)) = entries h"
  by (simp_all add: newTree_def)

lemma setForward_simps [simp]:
  "entries (setForward e t h) = (entries h)[e := (entries h ! e)\<lparr>forward := Some t\<rparr>]"
  "trees (setForward e t h) = trees h"
  by (simp_all add: setForward_def)

lemma setReverse_simps [simp]:
  "entries (setReverse e t h) = (entries h)[e := (entries h ! e)\<lparr>reverse := Some t\<rparr>]"
  "trees (setReverse e t h) = trees h"
  by (simp_all add: setReverse_def)

lemma individualSet_simps [simp]:
  "entries (individualSet t g e h) = entries h"
  "trees (individualSet t g e h)
   = (trees h)[t := (trees h ! t)\<lparr>individual := AList.update g e (individual (trees h ! t))\<rparr>]"
  by (simp_all add: individualSet_def)

lemma rangePush_simps [simp]:
  "entries (rangePush t r e h) = entries h"
  "trees (rangePush t r e h)
   = (trees h)[t := (trees h ! t)\<lparr>range' := range' (trees h ! t) @ [(r, e)]\<rparr>]"
  by (simp_all add: rangePush_def)

lemma children_update:
  "snd ` set (AList.update k v al) \<subseteq> insert v (snd ` set al)"
  by (induction al) auto

subsection \<open>getInputTree on a single glyph\<close>

text \<open>
  Claim C7 (per-call overwrite of individual-glyph children). Called with a single glyph on
  an existing tree, \<^verbatim>\<open>getInputTree\<close> creates one new entry, with neither branch-point,
  stores it in the tree's \<^verbatim>\<open>individual\<close> map under the glyph, whatever the map held
  there before, and returns that very entry, with the resolved substitution. No other key
  of the map, no other tree and no existing entry changes.
\<close>

theorem getInputTree_single:
  "tree < length (trees h)
   \<and> getSubstitutionAtPosition individualSub substitutions' lookups inputIndex g = Inr substitution \<longrightarrow>
   (\<exists>h'. getInputTree individualSub rangeSub tree substitutions' lookups inputIndex (Single g) h
           = Inr ([(length (entries h), substitution)], h')
      \<and> individualGet tree g h' = Some (length (entries h))
      \<and> entries h' = entries h @ [\<lparr>forward = None, reverse = None\<rparr>]
      \<and> (\<forall>k. k \<noteq> g \<longrightarrow> individualGet tree k h' = individualGet tree k h)
      \<and> range' (trees h' ! tree) = range' (trees h ! tree)
      \<and> length (trees h') = length (trees h)
      \<and> (\<forall>t. t \<noteq> tree \<longrightarrow> trees h' ! t = trees h ! t))"
  by (simp add: getInputTree_def individualGet_def split_beta Let_def update_conv')

theorem getInputTree_single_witness:
  "0 < length (trees exampleHeap)
   \<and> getSubstitutionAtPosition map_of exampleRecords exampleLookups 0 65 = Inr (Some 66)
   \<and> individualGet 0 65 exampleHeap = Some 1
   \<and> forward (entries exampleHeap ! 1) = Some 1
   \<and> (\<exists>h'. getInputTree map_of exampleRangeSub 0 exampleRecords exampleLookups 0 (Single 65)
             exampleHeap = Inr ([(3, Some 66)], h')
        \<and> individualGet 0 65 h' = Some 3
        \<and> entries h' ! 3 = \<lparr>forward = None, reverse = None\<rparr>)"
  using getInputTree_single [of 0 exampleHeap map_of exampleRecords exampleLookups 0 65 "Some 66"
      exampleRangeSub]
  by (auto simp: exampleHeap_def exampleRecords_def exampleLookups_def
        getSubstitutionAtPosition_def lookupAt_def individualGet_def)

subsection \<open>getInputTree on a range\<close>

lemma inputTreeSubs_Cons:
  "inputTreeSubs tree ((key, s) # subs) h =
     (case inputTreeSubs tree subs (afterKey tree key h) of
        (result, h') \<Rightarrow> ((length (entries h), s) # result, h'))"
  by (cases key)
     (simp_all add: afterKey_def afterRangeKey_def afterGlyphKey_def split_beta newEntry_def Let_def)

lemma inputTreeSubs_ConsE:
  assumes "inputTreeSubs tree ((key, s) # subs) h = (result, h')"
  obtains result' where "inputTreeSubs tree subs (afterKey tree key h) = (result', h')"
    and "result = (length (entries h), s) # result'"
proof -
  obtain result' h'' where r: "inputTreeSubs tree subs (afterKey tree key h) = (result', h'')"
    by (cases "inputTreeSubs tree subs (afterKey tree key h)")
  with assms have "h'' = h'" "result = (length (entries h), s) # result'"
    by (simp_all only: inputTreeSubs_Cons prod.case prod.inject)
  with r that show thesis by simp
qed

lemma afterKey_entries:
  "entries (afterKey tree key h)
   = entries h @ (case key of Range r \<Rightarrow> [\<lparr>forward = None, reverse = None\<rparr>]
                   | Single g \<Rightarrow> [\<lparr>forward = None, reverse = None\<rparr>, \<lparr>forward = None, reverse = None\<rparr>])"
  by (cases key) (simp_all add: afterKey_def afterRangeKey_def afterGlyphKey_def)

lemma afterKey_length_entries:
  "length (entries (afterKey tree key h)) = length (entries h) + (case key of Range r \<Rightarrow> 1 | Single g \<Rightarrow> 2)"
  by (cases key) (simp_all add: afterKey_entries)

lemma afterKey_trees:
  "length (trees (afterKey tree key h)) = length (trees h)"
  "t \<noteq> tree \<Longrightarrow> trees (afterKey tree key h) ! t = trees h ! t"
  by (cases key; simp add: afterKey_def afterRangeKey_def afterGlyphKey_def)+

lemma afterKey_tree:
  "tree < length (trees h) \<Longrightarrow>
   trees (afterKey tree key h) ! tree =
     (case key of
        Range r \<Rightarrow> (trees h ! tree)\<lparr>range' := range' (trees h ! tree) @ [(r, length (entries h))]\<rparr>
      | Single g \<Rightarrow> (trees h ! tree)\<lparr>individual :=
           AList.update g (Suc (length (entries h))) (individual (trees h ! tree))\<rparr>)"
  by (cases key) (simp_all add: afterKey_def afterRangeKey_def afterGlyphKey_def)

lemma inputTreeSubs_entries:
  "inputTreeSubs tree subs h = (result, h') \<Longrightarrow>
   \<exists>n. entries h' = entries h @ replicate n \<lparr>forward = None, reverse = None\<rparr>"
proof (induction subs arbitrary: h result h')
  case Nil
  then show ?case by simp
next
  case (Cons x subs)
  obtain key s where x: "x = (key, s)" by (cases x)
  from Cons.prems(1) obtain result' where
    r: "inputTreeSubs tree subs (afterKey tree key h) = (result', h')"
    unfolding x by (rule inputTreeSubs_ConsE)
  from Cons.IH [OF r] obtain n where
    "entries h' = entries (afterKey tree key h) @ replicate n \<lparr>forward = None, reverse = None\<rparr>" ..
  then have "entries h' = entries h
      @ replicate ((case key of Range r \<Rightarrow> 1 | Single g \<Rightarrow> 2) + n) \<lparr>forward = None, reverse = None\<rparr>"
    by (cases key) (simp_all add: afterKey_entries)
  then show ?case ..
qed

lemma inputTreeSubs_trees:
  "inputTreeSubs tree subs h = (result, h') \<Longrightarrow>
   length (trees h') = length (trees h) \<and> (\<forall>t. t \<noteq> tree \<longrightarrow> trees h' ! t = trees h ! t)"
proof (induction subs arbitrary: h result h')
  case Nil
  then show ?case by simp
next
  case (Cons x subs)
  obtain key s where x: "x = (key, s)" by (cases x)
  from Cons.prems(1) obtain result' where
    r: "inputTreeSubs tree subs (afterKey tree key h) = (result', h')"
    unfolding x by (rule inputTreeSubs_ConsE)
  from Cons.IH [OF r] show ?case by (simp add: afterKey_trees)
qed

lemma inputTreeSubs_substitutions:
  "inputTreeSubs tree subs h = (result, h') \<Longrightarrow> map snd result = map snd subs"
proof (induction subs arbitrary: h result h')
  case Nil
  then show ?case by auto
next
  case (Cons x subs)
  obtain key s where x: "x = (key, s)" by (cases x)
  from Cons.prems(1) obtain result' where
    r: "inputTreeSubs tree subs (afterKey tree key h) = (result', h')"
    and res: "result = (length (entries h), s) # result'"
    unfolding x by (rule inputTreeSubs_ConsE)
  from Cons.IH [OF r] show ?case by (simp add: res x)
qed

lemma inputTreeSubs_result_fresh:
  "inputTreeSubs tree subs h = (result, h') \<Longrightarrow>
   \<forall>e \<in> fst ` set result. length (entries h) \<le> e \<and> e < length (entries h')"
proof (induction subs arbitrary: h result h')
  case Nil
  then show ?case by auto
next
  case (Cons x subs)
  obtain key s where x: "x = (key, s)" by (cases x)
  from Cons.prems(1) obtain result' where
    r: "inputTreeSubs tree subs (afterKey tree key h) = (result', h')"
    and res: "result = (length (entries h), s) # result'"
    unfolding x by (rule inputTreeSubs_ConsE)
  from inputTreeSubs_entries [OF r] have "length (entries (afterKey tree key h)) \<le> length (entries h')"
    by auto
  moreover have "length (entries h) < length (entries (afterKey tree key h))"
    by (cases key) (simp_all add: afterKey_length_entries)
  ultimately show ?case
    using Cons.IH [OF r] by (auto simp: res)
qed

lemma inputTreeSubs_children:
  "inputTreeSubs tree subs h = (result, h') \<Longrightarrow> tree < length (trees h) \<Longrightarrow>
   \<forall>c \<in> children tree h'. c \<in> children tree h
      \<or> (length (entries h) \<le> c \<and> c < length (entries h') \<and> c \<notin> fst ` set result)"
proof (induction subs arbitrary: h result h')
  case Nil
  then show ?case by auto
next
  case (Cons x subs)
  obtain key s where x: "x = (key, s)" by (cases x)
  from Cons.prems(1) obtain result' where
    r: "inputTreeSubs tree subs (afterKey tree key h) = (result', h')"
    and res: "result = (length (entries h), s) # result'"
    unfolding x by (rule inputTreeSubs_ConsE)
  let ?h2 = "afterKey tree key h"
  have valid: "tree < length (trees ?h2)"
    using Cons.prems(2) by (simp add: afterKey_trees)
  have len2: "length (entries ?h2) \<le> length (entries h')"
    using inputTreeSubs_entries [OF r] by auto
  have lt: "length (entries h) < length (entries ?h2)"
    by (cases key) (simp_all add: afterKey_length_entries)
  have fresh: "\<forall>e \<in> fst ` set result'. length (entries ?h2) \<le> e"
    using inputTreeSubs_result_fresh [OF r] by blast
  have step: "\<forall>c \<in> children tree ?h2. c \<in> children tree h
      \<or> (c = Suc (length (entries h)) \<and> Suc (length (entries h)) < length (entries ?h2))"
    using children_update [of _ "Suc (length (entries h))" "individual (trees h ! tree)"]
    by (cases key) (auto simp: children_def afterKey_tree [OF Cons.prems(2)] afterKey_length_entries)
  show ?case
  proof
    fix c assume "c \<in> children tree h'"
    with Cons.IH [OF r valid] have
      "c \<in> children tree ?h2 \<or> (length (entries ?h2) \<le> c \<and> c < length (entries h') \<and> c \<notin> fst ` set result')"
      by blast
    then show "c \<in> children tree h
      \<or> (length (entries h) \<le> c \<and> c < length (entries h') \<and> c \<notin> fst ` set result)"
    proof
      assume "c \<in> children tree ?h2"
      with step have "c \<in> children tree h
        \<or> (c = Suc (length (entries h)) \<and> Suc (length (entries h)) < length (entries ?h2))" by blast
      then show ?thesis
        using fresh len2 by (auto simp: res)
    next
      assume "length (entries ?h2) \<le> c \<and> c < length (entries h') \<and> c \<notin> fst ` set result'"
      then show ?thesis using lt by (auto simp: res)
    qed
  qed
qed

lemma inputTreeSubs_other_glyphs:
  "inputTreeSubs tree subs h = (result, h') \<Longrightarrow> tree < length (trees h) \<Longrightarrow>
   Single g \<notin> fst ` set subs \<Longrightarrow> individualGet tree g h' = individualGet tree g h"
proof (induction subs arbitrary: h result h')
  case Nil
  then show ?case by auto
next
  case (Cons x subs)
  obtain key s where x: "x = (key, s)" by (cases x)
  from Cons.prems(1) obtain result' where
    r: "inputTreeSubs tree subs (afterKey tree key h) = (result', h')"
    unfolding x by (rule inputTreeSubs_ConsE)
  have valid: "tree < length (trees (afterKey tree key h))"
    using Cons.prems(2) by (simp add: afterKey_trees)
  have "individualGet tree g h' = individualGet tree g (afterKey tree key h)"
    using Cons.IH [OF r valid] Cons.prems(3) by simp
  also have "\<dots> = individualGet tree g h"
    using Cons.prems(3)
    by (cases key) (auto simp: x individualGet_def afterKey_tree [OF Cons.prems(2)] update_conv')
  finally show ?case .
qed

lemma inputTreeSubs_glyph_child:
  "inputTreeSubs tree subs h = (result, h') \<Longrightarrow> tree < length (trees h) \<Longrightarrow>
   Single g \<in> fst ` set subs \<Longrightarrow>
   \<exists>c. individualGet tree g h' = Some c \<and> length (entries h) \<le> c \<and> c < length (entries h')
      \<and> c \<notin> fst ` set result"
proof (induction subs arbitrary: h result h')
  case Nil
  then show ?case by auto
next
  case (Cons x subs)
  obtain key s where x: "x = (key, s)" by (cases x)
  from Cons.prems(1) obtain result' where
    r: "inputTreeSubs tree subs (afterKey tree key h) = (result', h')"
    and res: "result = (length (entries h), s) # result'"
    unfolding x by (rule inputTreeSubs_ConsE)
  let ?h2 = "afterKey tree key h"
  have valid: "tree < length (trees ?h2)"
    using Cons.prems(2) by (simp add: afterKey_trees)
  have len2: "length (entries ?h2) \<le> length (entries h')"
    using inputTreeSubs_entries [OF r] by auto
  have lt: "length (entries h) < length (entries ?h2)"
    by (cases key) (simp_all add: afterKey_length_entries)
  have fresh: "\<forall>e \<in> fst ` set result'. length (entries ?h2) \<le> e"
    using inputTreeSubs_result_fresh [OF r] by blast
  show ?case
  proof (cases "Single g \<in> fst ` set subs")
    case True
    from Cons.IH [OF r valid True] obtain c where
      "individualGet tree g h' = Some c" "length (entries ?h2) \<le> c" "c < length (entries h')"
      "c \<notin> fst ` set result'" by blast
    then show ?thesis using lt by (auto simp: res)
  next
    case False
    with Cons.prems(3) have key: "key = Single g" by (auto simp: x)
    have "individualGet tree g h' = individualGet tree g ?h2"
      by (rule inputTreeSubs_other_glyphs [OF r valid False])
    also have "\<dots> = Some (Suc (length (entries h)))"
      by (simp add: key individualGet_def afterKey_tree [OF Cons.prems(2)] update_conv')
    finally have "individualGet tree g h' = Some (Suc (length (entries h)))" .
    moreover have "Suc (length (entries h)) < length (entries ?h2)"
      by (simp add: key afterKey_length_entries)
    ultimately show ?thesis
      using fresh len2 by (auto simp: res)
  qed
qed

lemma linkedRanges_Cons:
  "linkedRanges ((key, s) # subs) ((e, s') # result)
   = (case key of Range r \<Rightarrow> [(r, e)] | Single g \<Rightarrow> []) @ linkedRanges subs result"
  by (simp add: linkedRanges_def)

lemma inputTreeSubs_ranges:
  "inputTreeSubs tree subs h = (result, h') \<Longrightarrow> tree < length (trees h) \<Longrightarrow>
   range' (trees h' ! tree) = range' (trees h ! tree) @ linkedRanges subs result"
proof (induction subs arbitrary: h result h')
  case Nil
  then show ?case by (auto simp: linkedRanges_def)
next
  case (Cons x subs)
  obtain key s where x: "x = (key, s)" by (cases x)
  from Cons.prems(1) obtain result' where
    r: "inputTreeSubs tree subs (afterKey tree key h) = (result', h')"
    and res: "result = (length (entries h), s) # result'"
    unfolding x by (rule inputTreeSubs_ConsE)
  have valid: "tree < length (trees (afterKey tree key h))"
    using Cons.prems(2) by (simp add: afterKey_trees)
  show ?case
    using Cons.IH [OF r valid]
    by (cases key) (simp_all add: x res linkedRanges_Cons afterKey_tree [OF Cons.prems(2)])
qed

text \<open>
  Claim C8 (range-split glyph entries are not linked into the tree). Called with a range on
  an existing tree whose \<^verbatim>\<open>individual\<close> map refers to existing entries only,
  \<^verbatim>\<open>getInputTree\<close> returns one new entry per pair of the resolved mapping, with that
  pair's substitution. For a glyph key of the mapping the tree's map holds, under that
  glyph, another new entry, one with neither branch-point and not among the returned ones;
  no returned entry is referred to by the map at all. For the range keys the pairs pushed on
  the tree's \<^verbatim>\<open>range\<close> list carry the returned entries themselves.
\<close>

theorem getInputTree_range_split:
  "tree < length (trees h)
   \<and> (\<forall>c \<in> children tree h. c < length (entries h))
   \<and> getInputTree individualSub rangeSub tree substitutions' lookups inputIndex (Range r) h
       = Inr (result, h') \<longrightarrow>
   (\<exists>subs. getSubstitutionAtPositionRange rangeSub substitutions' lookups inputIndex r = Inr subs
      \<and> map snd result = map snd subs
      \<and> (\<forall>e \<in> fst ` set result.
            length (entries h) \<le> e \<and> e < length (entries h') \<and> e \<notin> children tree h')
      \<and> (\<forall>g. Single g \<in> fst ` set subs \<longrightarrow>
            (\<exists>c. individualGet tree g h' = Some c
               \<and> length (entries h) \<le> c \<and> c < length (entries h')
               \<and> entries h' ! c = \<lparr>forward = None, reverse = None\<rparr>
               \<and> c \<notin> fst ` set result))
      \<and> range' (trees h' ! tree) = range' (trees h ! tree) @ linkedRanges subs result)"
proof (intro impI, elim conjE)
  assume valid: "tree < length (trees h)"
    and old: "\<forall>c \<in> children tree h. c < length (entries h)"
    and call: "getInputTree individualSub rangeSub tree substitutions' lookups inputIndex (Range r) h
       = Inr (result, h')"
  from call obtain subs where
    subs: "getSubstitutionAtPositionRange rangeSub substitutions' lookups inputIndex r = Inr subs"
    and loop: "inputTreeSubs tree subs h = (result, h')"
    by (auto simp: getInputTree_def split: sum.splits)
  from inputTreeSubs_entries [OF loop] obtain n where
    grown: "entries h' = entries h @ replicate n \<lparr>forward = None, reverse = None\<rparr>" ..
  have new_empty: "entries h' ! c = \<lparr>forward = None, reverse = None\<rparr>"
    if "length (entries h) \<le> c" "c < length (entries h')" for c
    using that by (simp add: grown nth_append)
  have "\<forall>e \<in> fst ` set result.
          length (entries h) \<le> e \<and> e < length (entries h') \<and> e \<notin> children tree h'"
    using inputTreeSubs_result_fresh [OF loop] inputTreeSubs_children [OF loop valid] old
    by fastforce
  moreover have "\<forall>g. Single g \<in> fst ` set subs \<longrightarrow>
            (\<exists>c. individualGet tree g h' = Some c
               \<and> length (entries h) \<le> c \<and> c < length (entries h')
               \<and> entries h' ! c = \<lparr>forward = None, reverse = None\<rparr>
               \<and> c \<notin> fst ` set result)"
    using inputTreeSubs_glyph_child [OF loop valid] new_empty by blast
  ultimately show "\<exists>subs. getSubstitutionAtPositionRange rangeSub substitutions' lookups inputIndex r
        = Inr subs
      \<and> map snd result = map snd subs
      \<and> (\<forall>e \<in> fst ` set result.
            length (entries h) \<le> e \<and> e < length (entries h') \<and> e \<notin> children tree h')
      \<and> (\<forall>g. Single g \<in> fst ` set subs \<longrightarrow>
            (\<exists>c. individualGet tree g h' = Some c
               \<and> length (entries h) \<le> c \<and> c < length (entries h')
               \<and> entries h' ! c = \<lparr>forward = None, reverse = None\<rparr>
               \<and> c \<notin> fst ` set result))
      \<and> range' (trees h' ! tree) = range' (trees h ! tree) @ linkedRanges subs result"
    using subs inputTreeSubs_substitutions [OF loop] inputTreeSubs_ranges [OF loop valid]
    by blast
qed

theorem getInputTree_range_split_witness:
  "0 < length (trees exampleHeap)
   \<and> list_all (\<lambda>c. c < length (entries exampleHeap)) (map snd (individual (trees exampleHeap ! 0)))
   \<and> getInputTree map_of exampleRangeSub 0 exampleRecords exampleLookups 0 (Range (65, 70))
        exampleHeap
      = Inr ([(3, Some 66), (5, None)],
          \<lparr>entries = entries exampleHeap @ replicate 3 \<lparr>forward = None, reverse = None\<rparr>,
           trees = [\<lparr>individual = [(65, 4)], range' = [((66, 70), 5)]\<rparr>,
                    \<lparr>individual = [(66, 2)], range' = []\<rparr>]\<rparr>)
   \<and> getSubstitutionAtPositionRange exampleRangeSub exampleRecords exampleLookups 0 (65, 70)
      = Inr [(Single 65, Some 66), (Range (66, 70), None)]"
proof -
  have valid: "0 < length (trees exampleHeap)"
    by (simp add: exampleHeap_def)
  have old: "list_all (\<lambda>c. c < length (entries exampleHeap))
      (map snd (individual (trees exampleHeap ! 0)))"
    by (simp add: exampleHeap_def)
  have call: "getInputTree map_of exampleRangeSub 0 exampleRecords exampleLookups 0 (Range (65, 70))
        exampleHeap
      = Inr ([(3, Some 66), (5, None)],
          \<lparr>entries = entries exampleHeap @ replicate 3 \<lparr>forward = None, reverse = None\<rparr>,
           trees = [\<lparr>individual = [(65, 4)], range' = [((66, 70), 5)]\<rparr>,
                    \<lparr>individual = [(66, 2)], range' = []\<rparr>]\<rparr>)"
    by code_simp
  have "\<forall>c \<in> children 0 exampleHeap. c < length (entries exampleHeap)"
    using old by (simp add: children_def list_all_iff)
  with valid call getInputTree_range_split [of 0 exampleHeap map_of exampleRangeSub exampleRecords
      exampleLookups 0 "(65, 70)" "[(3, Some 66), (5, None)]"
      "\<lparr>entries = entries exampleHeap @ replicate 3 \<lparr>forward = None, reverse = None\<rparr>,
           trees = [\<lparr>individual = [(65, 4)], range' = [((66, 70), 5)]\<rparr>,
                    \<lparr>individual = [(66, 2)], range' = []\<rparr>]\<rparr>"]
  obtain subs where
    subs: "getSubstitutionAtPositionRange exampleRangeSub exampleRecords exampleLookups 0 (65, 70)
      = Inr subs" "map snd [(3::nat, Some (66::int)), (5, None)] = map snd subs"
    by blast
  have "getSubstitutionAtPositionRange exampleRangeSub exampleRecords exampleLookups 0 (65, 70)
      = Inr [(Single 65, Some 66), (Range (66, 70), None)]"
    by code_simp
  with valid old call subs show ?thesis by simp
qed

subsection \<open>processInputPosition\<close>

lemma growsI:
  assumes "entries h' = entries h @ replicate n \<lparr>forward = None, reverse = None\<rparr>"
    and "length (trees h') = length (trees h)"
    and "\<And>t'. t' \<noteq> t \<Longrightarrow> trees h' ! t' = trees h ! t'"
    and "\<And>c. c \<in> children t h' \<Longrightarrow> c \<in> children t h
            \<or> (length (entries h) \<le> c \<and> c < length (entries h'))"
    and "\<And>e. e \<in> snd ` set (range' (trees h' ! t)) \<Longrightarrow> e \<in> snd ` set (range' (trees h ! t))
            \<or> (length (entries h) \<le> e \<and> e < length (entries h'))"
  shows "grows t h h'"
  unfolding grows_def
  apply (intro conjI)
      apply (rule exI [of _ n], rule assms(1))
     apply (rule assms(2))
    apply (intro allI impI, erule assms(3))
   apply (intro ballI, erule assms(4))
  apply (intro ballI, erule assms(5))
  done

lemma grows_entries:
  assumes "grows t h h'"
  shows "\<exists>n. entries h' = entries h @ replicate n \<lparr>forward = None, reverse = None\<rparr>"
  using assms unfolding grows_def by (rule conjunct1)

lemma grows_trees:
  assumes "grows t h h'"
  shows "length (trees h') = length (trees h)"
    and "t' \<noteq> t \<Longrightarrow> trees h' ! t' = trees h ! t'"
proof -
  from assms have a: "length (trees h') = length (trees h)
     \<and> (\<forall>t'. t' \<noteq> t \<longrightarrow> trees h' ! t' = trees h ! t')"
    unfolding grows_def by (elim conjE) (intro conjI)
  from a show "length (trees h') = length (trees h)" ..
  from a show "t' \<noteq> t \<Longrightarrow> trees h' ! t' = trees h ! t'" by simp
qed

lemma grows_children:
  assumes "grows t h h'" "c \<in> children t h'"
  shows "c \<in> children t h \<or> (length (entries h) \<le> c \<and> c < length (entries h'))"
proof -
  from assms(1) have "\<forall>c \<in> children t h'. c \<in> children t h
            \<or> (length (entries h) \<le> c \<and> c < length (entries h'))"
    unfolding grows_def by (elim conjE)
  from this assms(2) show ?thesis by (rule bspec)
qed

lemma grows_ranges:
  assumes "grows t h h'" "e \<in> snd ` set (range' (trees h' ! t))"
  shows "e \<in> snd ` set (range' (trees h ! t))
     \<or> (length (entries h) \<le> e \<and> e < length (entries h'))"
proof -
  from assms(1) have "\<forall>e \<in> snd ` set (range' (trees h' ! t)). e \<in> snd ` set (range' (trees h ! t))
            \<or> (length (entries h) \<le> e \<and> e < length (entries h'))"
    unfolding grows_def by (elim conjE)
  from this assms(2) show ?thesis by (rule bspec)
qed

lemma grows_refl: "grows t h h"
  by (rule growsI [of _ _ 0]) simp_all

lemma grows_length:
  assumes "grows t h h'"
  shows "length (entries h) \<le> length (entries h')"
proof -
  from grows_entries [OF assms] obtain n where
    "entries h' = entries h @ replicate n \<lparr>forward = None, reverse = None\<rparr>" ..
  then show ?thesis by simp
qed

lemma grows_old_entry:
  assumes "grows t h h'" "e < length (entries h)"
  shows "entries h' ! e = entries h ! e"
proof -
  from grows_entries [OF assms(1)] obtain n where
    "entries h' = entries h @ replicate n \<lparr>forward = None, reverse = None\<rparr>" ..
  then show ?thesis using assms(2) by (simp add: nth_append)
qed

lemma grows_trans:
  assumes "grows t h h1" "grows t h1 h2"
  shows "grows t h h2"
proof -
  from grows_entries [OF assms(1)] obtain n where
    n: "entries h1 = entries h @ replicate n \<lparr>forward = None, reverse = None\<rparr>" ..
  from grows_entries [OF assms(2)] obtain m where
    m: "entries h2 = entries h1 @ replicate m \<lparr>forward = None, reverse = None\<rparr>" ..
  have l1: "length (entries h) \<le> length (entries h1)" "length (entries h1) \<le> length (entries h2)"
    using n m by simp_all
  show ?thesis
  proof (rule growsI [of _ _ "n + m"])
    show "entries h2 = entries h @ replicate (n + m) \<lparr>forward = None, reverse = None\<rparr>"
      by (simp add: n m replicate_add)
    show "length (trees h2) = length (trees h)"
      using grows_trees(1) [OF assms(1)] grows_trees(1) [OF assms(2)] by simp
    show "trees h2 ! t' = trees h ! t'" if "t' \<noteq> t" for t'
      using grows_trees(2) [OF assms(1) that] grows_trees(2) [OF assms(2) that] by simp
    show "c \<in> children t h \<or> (length (entries h) \<le> c \<and> c < length (entries h2))"
      if "c \<in> children t h2" for c
      using grows_children [OF assms(2) that] grows_children [OF assms(1), of c] l1
      by (meson le_trans less_le_trans)
    show "e \<in> snd ` set (range' (trees h ! t))
        \<or> (length (entries h) \<le> e \<and> e < length (entries h2))"
      if "e \<in> snd ` set (range' (trees h2 ! t))" for e
      using grows_ranges [OF assms(2) that] grows_ranges [OF assms(1), of e] l1
      by (meson le_trans less_le_trans)
  qed
qed

lemma linkedRanges_subset:
  "snd ` set (linkedRanges subs result) \<subseteq> fst ` set result"
proof (induction subs arbitrary: result)
  case Nil
  then show ?case by (simp add: linkedRanges_def)
next
  case (Cons x subs)
  obtain key s where x: "x = (key, s)" by (cases x)
  show ?case
  proof (cases result)
    case Nil
    then show ?thesis by (simp add: linkedRanges_def)
  next
    case (Cons y result')
    obtain e s' where y: "y = (e, s')" by (cases y)
    show ?thesis
      using Cons.IH [of result'] unfolding Cons x y linkedRanges_Cons
      by (cases key) auto
  qed
qed

lemma getInputTree_grows:
  assumes "getInputTree individualSub rangeSub t recs lookups idx glyph h = Inr (result, h')"
    and "t < length (trees h)"
  shows "grows t h h'"
    and "\<forall>e \<in> fst ` set result. length (entries h) \<le> e \<and> e < length (entries h')"
proof -
  show "grows t h h' " 
  proof (cases glyph)
    case (Single g)
    with assms(1) have h': "h' = individualSet t g (length (entries h)) (snd (newEntry h))"
      by (auto simp: getInputTree_def split_beta Let_def split: sum.splits)
    have "entries h' = entries h @ replicate 1 \<lparr>forward = None, reverse = None\<rparr>"
      by (simp add: h')
    then have "\<exists>n. entries h' = entries h @ replicate n \<lparr>forward = None, reverse = None\<rparr>" ..
    moreover have "\<forall>c \<in> children t h'. c \<in> children t h
            \<or> (length (entries h) \<le> c \<and> c < length (entries h'))"
      using children_update [of g "length (entries h)" "individual (trees h ! t)"] assms(2)
      by (auto simp: h' children_def)
    ultimately show ?thesis
      using assms(2) unfolding grows_def by (simp add: h')
  next
    case (Range r)
    with assms(1) obtain subs where loop: "inputTreeSubs t subs h = (result, h')"
      by (auto simp: getInputTree_def split: sum.splits)
    have "\<forall>e \<in> snd ` set (range' (trees h' ! t)). e \<in> snd ` set (range' (trees h ! t))
            \<or> (length (entries h) \<le> e \<and> e < length (entries h'))"
    proof
      fix e assume "e \<in> snd ` set (range' (trees h' ! t))"
      then have "e \<in> snd ` set (range' (trees h ! t)) \<or> e \<in> snd ` set (linkedRanges subs result)"
        unfolding inputTreeSubs_ranges [OF loop assms(2)] by auto
      moreover have "length (entries h) \<le> e \<and> e < length (entries h')"
        if "e \<in> snd ` set (linkedRanges subs result)"
        using that linkedRanges_subset [of subs result] inputTreeSubs_result_fresh [OF loop]
        by blast
      ultimately show "e \<in> snd ` set (range' (trees h ! t))
            \<or> (length (entries h) \<le> e \<and> e < length (entries h'))" by blast
    qed
    moreover have "\<forall>c \<in> children t h'. c \<in> children t h
            \<or> (length (entries h) \<le> c \<and> c < length (entries h'))"
      using inputTreeSubs_children [OF loop assms(2)] by blast
    ultimately show ?thesis
      unfolding grows_def
      using inputTreeSubs_entries [OF loop] inputTreeSubs_trees [OF loop] by simp
  qed
next
  show "\<forall>e \<in> fst ` set result. length (entries h) \<le> e \<and> e < length (entries h')"
  proof (cases glyph)
    case (Single g)
    with assms show ?thesis
      by (auto simp: getInputTree_def split_beta Let_def individualGet_def update_conv'
            split: sum.splits)
  next
    case (Range r)
    with assms(1) obtain subs where loop: "inputTreeSubs t subs h = (result, h')"
      by (auto simp: getInputTree_def split: sum.splits)
    then show ?thesis by (rule inputTreeSubs_result_fresh)
  qed
qed

lemma inputGlyphs_grows:
  "inputGlyphs individualSub rangeSub glyphs position cur recs lookups h = Inr (nextEntries, h')
   \<Longrightarrow> entry cur < length (entries h) \<Longrightarrow> forward (entries h ! entry cur) = Some t
   \<Longrightarrow> t < length (trees h)
   \<Longrightarrow> grows t h h'
       \<and> (\<forall>m \<in> set nextEntries. length (entries h) \<le> entry m \<and> entry m < length (entries h'))"
proof (induction glyphs arbitrary: h nextEntries h')
  case Nil
  then show ?case by (simp add: grows_refl)
next
  case (Cons glyph glyphs)
  from Cons.prems(1,3) obtain result h1 next' where
    call: "getInputTree individualSub rangeSub t recs lookups position glyph h = Inr (result, h1)"
    and rest: "inputGlyphs individualSub rangeSub glyphs position cur recs lookups h1
               = Inr (next', h')"
    and nxt: "nextEntries = map (\<lambda>(entry', substitution).
                \<lparr>entry = entry', substitutions = substitutions cur @ [substitution]\<rparr>) result @ next'"
    by (auto split: sum.splits)
  note g1 = getInputTree_grows [OF call Cons.prems(4)]
  have e1: "entry cur < length (entries h1)"
    using grows_length [OF g1(1)] Cons.prems(2) by simp
  have f1: "forward (entries h1 ! entry cur) = Some t"
    using grows_old_entry [OF g1(1) Cons.prems(2)] Cons.prems(3) by simp
  have t1: "t < length (trees h1)"
    using g1(1) Cons.prems(4) by (simp add: grows_def)
  note ih = Cons.IH [OF rest e1 f1 t1]
  have "grows t h h'"
    using g1(1) ih by (blast intro: grows_trans)
  moreover have "\<forall>m \<in> set nextEntries. length (entries h) \<le> entry m \<and> entry m < length (entries h')"
  proof
    fix m assume "m \<in> set nextEntries"
    then have "entry m \<in> fst ` set result \<or> m \<in> set next'"
      by (force simp: nxt)
    moreover have "length (entries h1) \<le> length (entries h')"
      using ih by (blast intro: grows_length)
    ultimately show "length (entries h) \<le> entry m \<and> entry m < length (entries h')"
      using g1(2) ih grows_length [OF g1(1)] by fastforce
  qed
  ultimately show ?case by simp
qed


lemma dedupGlyphs_Nil_iff: "dedupGlyphs glyphs = [] \<longleftrightarrow> glyphs = []"
  using set_firstOccurrences [of glyphs] by (auto simp: dedupGlyphs_firstOccurrences firstOccurrences_Nil)

lemma processInputPosition_inputStep:
  "processInputPosition individualSub rangeSub glyphs position cur recs lookups h
     = Inr (nextEntries, h')
   \<Longrightarrow> \<forall>c \<in> set cur. entry c < length (entries h)
   \<Longrightarrow> inputStep glyphs cur h nextEntries h'"
proof (induction cur arbitrary: h nextEntries h')
  case Nil
  then show ?case by (simp add: inputStep_def)
next
  case (Cons c rest)
  define e where "e = entry c"
  define t0 where "t0 = length (trees h)"
  define h2 where "h2 = setForward e t0 (snd (newTree h))"
  from Cons.prems(1) obtain next1 h3 next2 where
    call: "inputGlyphs individualSub rangeSub (dedupGlyphs glyphs) position c recs lookups h2
           = Inr (next1, h3)"
    and rest: "processInputPosition individualSub rangeSub glyphs position rest recs lookups h3
           = Inr (next2, h')"
    and nxt: "nextEntries = next1 @ next2"
    by (auto simp: split_beta Let_def h2_def e_def t0_def newTree_def split: sum.splits)
  have e: "e < length (entries h)"
    using Cons.prems(2) by (simp add: e_def)
  have entries2: "entries h2 = (entries h)[e := (entries h ! e)\<lparr>forward := Some t0\<rparr>]"
    and trees2: "trees h2 = trees h @ [\<lparr>individual = [], range' = []\<rparr>]"
    by (simp_all add: h2_def)
  have len2: "length (entries h2) = length (entries h)"
    by (simp add: entries2)
  have fwd2: "forward (entries h2 ! entry c) = Some t0"
    using e by (simp add: entries2 e_def)
  have g: "grows t0 h2 h3"
    and fresh1: "\<forall>m \<in> set next1. length (entries h2) \<le> entry m \<and> entry m < length (entries h3)"
    using inputGlyphs_grows [OF call _ fwd2, unfolded len2] e
    by (simp_all add: e_def trees2 t0_def len2)
  have len3: "length (entries h2) \<le> length (entries h3)"
    by (rule grows_length [OF g])
  have V3: "\<forall>c \<in> set rest. entry c < length (entries h3)"
    using Cons.prems(2) len3 len2 by auto
  have ih: "inputStep glyphs rest h3 next2 h'"
    by (rule Cons.IH [OF rest V3])
  have ih_len: "length (entries h3) \<le> length (entries h')"
    and ih_old: "\<And>x. x < length (entries h3) \<Longrightarrow> reverse (entries h' ! x) = reverse (entries h3 ! x)"
    and ih_frame: "\<And>x. x < length (entries h3) \<Longrightarrow> x \<notin> entry ` set rest
                    \<Longrightarrow> entries h' ! x = entries h3 ! x"
    and ih_tlen: "length (trees h3) \<le> length (trees h')"
    and ih_trees: "\<And>t. t < length (trees h3) \<Longrightarrow> trees h' ! t = trees h3 ! t"
    and ih_next: "\<And>m. m \<in> set next2 \<Longrightarrow> length (entries h3) \<le> entry m \<and> entry m < length (entries h')"
    using ih unfolding inputStep_def by simp_all
  have ih_fwd: "\<exists>t. forward (entries h' ! entry c') = Some t
            \<and> length (trees h3) \<le> t \<and> t < length (trees h')
            \<and> (\<forall>x \<in> children t h'. length (entries h3) \<le> x \<and> x < length (entries h'))
            \<and> (\<forall>x \<in> snd ` set (range' (trees h' ! t)).
                  length (entries h3) \<le> x \<and> x < length (entries h'))
            \<and> (glyphs = [] \<longrightarrow> trees h' ! t = \<lparr>individual = [], range' = []\<rparr>)"
    if "c' \<in> set rest" for c'
    using ih that unfolding inputStep_def by blast
  have tlen3: "length (trees h3) = Suc (length (trees h))"
    using grows_trees(1) [OF g] by (simp add: trees2)
  have old3: "entries h3 ! x = entries h2 ! x" if "x < length (entries h)" for x
    using grows_old_entry [OF g] that len2 by simp
  have trees3: "trees h3 ! t = trees h ! t" if "t < length (trees h)" for t
    using grows_trees(2) [OF g, of t] that by (simp add: trees2 t0_def nth_append)
  have p1: "length (entries h) \<le> length (entries h')"
    using len2 len3 ih_len by simp
  have p2: "\<forall>x < length (entries h). reverse (entries h' ! x) = reverse (entries h ! x)
            \<and> (x \<notin> entry ` set (c # rest) \<longrightarrow> entries h' ! x = entries h ! x)"
  proof (intro allI impI conjI)
    fix x assume x: "x < length (entries h)"
    then have x3: "x < length (entries h3)" using len2 len3 by simp
    have "reverse (entries h2 ! x) = reverse (entries h ! x)"
      using x by (cases "x = e") (simp_all add: entries2)
    then show "reverse (entries h' ! x) = reverse (entries h ! x)"
      using ih_old [OF x3] old3 [OF x] by simp
    assume "x \<notin> entry ` set (c # rest)"
    then have "x \<noteq> e" "x \<notin> entry ` set rest" by (auto simp: e_def)
    then show "entries h' ! x = entries h ! x"
      using ih_frame [OF x3] old3 [OF x] by (simp add: entries2)
  qed
  have p3: "length (trees h) \<le> length (trees h')"
    using ih_tlen tlen3 by simp
  have p4: "\<forall>t < length (trees h). trees h' ! t = trees h ! t"
    using ih_trees trees3 tlen3 by simp
  have p5: "\<forall>m \<in> set nextEntries. length (entries h) \<le> entry m \<and> entry m < length (entries h')"
    using fresh1 ih_next len2 len3 ih_len by (fastforce simp: nxt)
  have head: "\<exists>t. forward (entries h' ! entry c) = Some t
            \<and> length (trees h) \<le> t \<and> t < length (trees h')
            \<and> (\<forall>x \<in> children t h'. length (entries h) \<le> x \<and> x < length (entries h'))
            \<and> (\<forall>x \<in> snd ` set (range' (trees h' ! t)).
                  length (entries h) \<le> x \<and> x < length (entries h'))
            \<and> (glyphs = [] \<longrightarrow> trees h' ! t = \<lparr>individual = [], range' = []\<rparr>)"
  proof (cases "e \<in> entry ` set rest")
    case True
    then obtain c' where c': "c' \<in> set rest" "entry c' = e" by auto
    from ih_fwd [OF c'(1)] show ?thesis
      unfolding c'(2) e_def [symmetric] using len2 len3 tlen3
      by (elim exE conjE, intro exI conjI) auto
  next
    case False
    have e3: "e < length (entries h3)" using e len2 len3 by simp
    have "entries h' ! e = entries h2 ! e"
      using ih_frame [OF e3 False] old3 [OF e] by simp
    then have f: "forward (entries h' ! e) = Some t0"
      using fwd2 by (simp add: e_def)
    have t: "trees h' ! t0 = trees h3 ! t0"
      using ih_trees [of t0] tlen3 by (simp add: t0_def)
    have empty2: "trees h2 ! t0 = \<lparr>individual = [], range' = []\<rparr>"
      by (simp add: trees2 t0_def)
    have c: "\<forall>x \<in> children t0 h'. length (entries h) \<le> x \<and> x < length (entries h')"
    proof
      fix x assume "x \<in> children t0 h'"
      then have "x \<in> children t0 h3" by (simp add: children_def t)
      from grows_children [OF g this] show "length (entries h) \<le> x \<and> x < length (entries h')"
        using ih_len len2 by (auto simp: children_def empty2)
    qed
    have r: "\<forall>x \<in> snd ` set (range' (trees h' ! t0)).
                  length (entries h) \<le> x \<and> x < length (entries h')"
    proof
      fix x assume "x \<in> snd ` set (range' (trees h' ! t0))"
      then have "x \<in> snd ` set (range' (trees h3 ! t0))" by (simp add: t)
      from grows_ranges [OF g this] show "length (entries h) \<le> x \<and> x < length (entries h')"
        using ih_len len2 by (auto simp: empty2)
    qed
    have "trees h' ! t0 = \<lparr>individual = [], range' = []\<rparr>" if "glyphs = []"
      using call that t empty2 by (simp add: dedupGlyphs_def)
    with f c r show ?thesis
      using p3 tlen3 ih_tlen by (intro exI [of _ t0]) (simp add: e_def t0_def)
  qed
  have p6: "\<forall>c' \<in> set (c # rest). \<exists>t. forward (entries h' ! entry c') = Some t
            \<and> length (trees h) \<le> t \<and> t < length (trees h')
            \<and> (\<forall>x \<in> children t h'. length (entries h) \<le> x \<and> x < length (entries h'))
            \<and> (\<forall>x \<in> snd ` set (range' (trees h' ! t)).
                  length (entries h) \<le> x \<and> x < length (entries h'))
            \<and> (glyphs = [] \<longrightarrow> trees h' ! t = \<lparr>individual = [], range' = []\<rparr>)"
  proof
    fix c' assume "c' \<in> set (c # rest)"
    then consider "c' = c" | "c' \<in> set rest" by auto
    then show "\<exists>t. forward (entries h' ! entry c') = Some t
            \<and> length (trees h) \<le> t \<and> t < length (trees h')
            \<and> (\<forall>x \<in> children t h'. length (entries h) \<le> x \<and> x < length (entries h'))
            \<and> (\<forall>x \<in> snd ` set (range' (trees h' ! t)).
                  length (entries h) \<le> x \<and> x < length (entries h'))
            \<and> (glyphs = [] \<longrightarrow> trees h' ! t = \<lparr>individual = [], range' = []\<rparr>)"
    proof cases
      case 1
      then show ?thesis using head by simp
    next
      case 2
      from ih_fwd [OF 2] show ?thesis
        using len2 len3 tlen3 by (elim exE conjE, intro exI conjI) auto
    qed
  qed
  show ?case
    unfolding inputStep_def using p1 p2 p3 p4 p5 p6 by blast
qed

lemma processInputPosition_append:
  "processInputPosition individualSub rangeSub glyphs position (pre @ post) recs lookups h =
     (case processInputPosition individualSub rangeSub glyphs position pre recs lookups h of
        Inl err \<Rightarrow> Inl err
      | Inr (n1, h1) \<Rightarrow>
          (case processInputPosition individualSub rangeSub glyphs position post recs lookups h1 of
             Inl err \<Rightarrow> Inl err
           | Inr (n2, h2) \<Rightarrow> Inr (n1 @ n2, h2)))"
proof (induction pre arbitrary: h)
  case Nil
  then show ?case by (simp split: sum.splits)
next
  case (Cons c pre)
  show ?case
    by (simp add: Cons.IH split_beta Let_def split: sum.splits)
qed

lemma inputStep_frame:
  assumes "inputStep glyphs cur h nextEntries h'"
  shows "length (entries h) \<le> length (entries h')"
    and "length (trees h) \<le> length (trees h')"
    and "\<And>e. e < length (entries h) \<Longrightarrow> reverse (entries h' ! e) = reverse (entries h ! e)"
    and "\<And>e. e < length (entries h) \<Longrightarrow> e \<notin> entry ` set cur \<Longrightarrow> entries h' ! e = entries h ! e"
    and "\<And>t. t < length (trees h) \<Longrightarrow> trees h' ! t = trees h ! t"
proof -
  note a = assms [unfolded inputStep_def]
  from a show "length (entries h) \<le> length (entries h')" by (elim conjE)
  from a show "length (trees h) \<le> length (trees h')" by (elim conjE)
  from a have b: "\<forall>e < length (entries h). reverse (entries h' ! e) = reverse (entries h ! e)
            \<and> (e \<notin> entry ` set cur \<longrightarrow> entries h' ! e = entries h ! e)"
    by (elim conjE)
  from b show "\<And>e. e < length (entries h) \<Longrightarrow> reverse (entries h' ! e) = reverse (entries h ! e)"
    by blast
  from b show "\<And>e. e < length (entries h) \<Longrightarrow> e \<notin> entry ` set cur \<Longrightarrow> entries h' ! e = entries h ! e"
    by blast
  from a have c: "\<forall>t < length (trees h). trees h' ! t = trees h ! t"
    by (elim conjE)
  from c show "\<And>t. t < length (trees h) \<Longrightarrow> trees h' ! t = trees h ! t" by blast
qed

lemma inputStep_forward:
  assumes "inputStep glyphs cur h nextEntries h'" "c \<in> set cur"
  shows "\<exists>t. forward (entries h' ! entry c) = Some t \<and> length (trees h) \<le> t"
proof -
  from assms(1) have "\<forall>c \<in> set cur. \<exists>t. forward (entries h' ! entry c) = Some t
            \<and> length (trees h) \<le> t \<and> t < length (trees h')
            \<and> (\<forall>x \<in> children t h'. length (entries h) \<le> x \<and> x < length (entries h'))
            \<and> (\<forall>x \<in> snd ` set (range' (trees h' ! t)).
                  length (entries h) \<le> x \<and> x < length (entries h'))
            \<and> (glyphs = [] \<longrightarrow> trees h' ! t = \<lparr>individual = [], range' = []\<rparr>)"
    unfolding inputStep_def by (elim conjE)
  with assms(2) show ?thesis by blast
qed

text \<open>The call, seen from one of its current entries.\<close>

lemma processInputPosition_at:
  assumes valid: "\<forall>x \<in> set (pre @ c # post). entry x < length (entries h)"
    and call: "processInputPosition individualSub rangeSub glyphs position (pre @ c # post)
                 recs lookups h = Inr (nextEntries, h')"
  shows "\<exists>n1 h1 n2 h3 n3.
       processInputPosition individualSub rangeSub glyphs position pre recs lookups h = Inr (n1, h1)
     \<and> length (trees h) \<le> length (trees h1)
     \<and> entry c < length (entries h1)
     \<and> reverse (entries h1 ! entry c) = reverse (entries h ! entry c)
     \<and> inputGlyphs individualSub rangeSub (dedupGlyphs glyphs) position c recs lookups
          (h1\<lparr>entries := (entries h1)[entry c :=
                   (entries h1 ! entry c)\<lparr>forward := Some (length (trees h1))\<rparr>],
              trees := trees h1 @ [\<lparr>individual = [], range' = []\<rparr>]\<rparr>) = Inr (n2, h3)
     \<and> processInputPosition individualSub rangeSub glyphs position post recs lookups h3
          = Inr (n3, h')
     \<and> nextEntries = n1 @ n2 @ n3
     \<and> trees h' ! length (trees h1) = trees h3 ! length (trees h1)
     \<and> (entry c \<notin> entry ` set post \<longrightarrow> forward (entries h' ! entry c) = Some (length (trees h1)))"
proof -
  let ?e = "entry c"
  from call obtain n1 h1 n' where
    pre: "processInputPosition individualSub rangeSub glyphs position pre recs lookups h = Inr (n1, h1)"
    and tail: "processInputPosition individualSub rangeSub glyphs position (c # post) recs lookups h1
               = Inr (n', h')"
    and nxt: "nextEntries = n1 @ n'"
    unfolding processInputPosition_append by (auto split: sum.splits)
  let ?t = "length (trees h1)"
  let ?h2 = "h1\<lparr>entries := (entries h1)[?e := (entries h1 ! ?e)\<lparr>forward := Some ?t\<rparr>],
                trees := trees h1 @ [\<lparr>individual = [], range' = []\<rparr>]\<rparr>"
  have h2: "setForward ?e ?t (snd (newTree h1)) = ?h2"
    by (simp add: setForward_def newTree_def)
  from tail obtain n2 h3 n3 where
    loop: "inputGlyphs individualSub rangeSub (dedupGlyphs glyphs) position c recs lookups ?h2
           = Inr (n2, h3)"
    and rest: "processInputPosition individualSub rangeSub glyphs position post recs lookups h3
           = Inr (n3, h')"
    and nxt': "n' = n2 @ n3"
    by (auto simp: split_beta Let_def h2 split: sum.splits)
  have vpre: "\<forall>x \<in> set pre. entry x < length (entries h)" using valid by simp
  note s1 = inputStep_frame [OF processInputPosition_inputStep [OF pre vpre]]
  have e: "?e < length (entries h)" using valid by simp
  then have e1: "?e < length (entries h1)" using s1(1) by simp
  have e2: "?e < length (entries ?h2)" using e1 by simp
  have f2: "forward (entries ?h2 ! ?e) = Some ?t" using e1 by simp
  have t2: "?t < length (trees ?h2)" by simp
  have g: "grows ?t ?h2 h3"
    using inputGlyphs_grows [OF loop e2 f2 t2] by (rule conjunct1)
  have len3: "length (entries h1) \<le> length (entries h3)"
    using grows_length [OF g] by simp
  have tl3: "length (trees h3) = Suc ?t"
    using grows_trees(1) [OF g] by simp
  have vpost: "\<forall>x \<in> set post. entry x < length (entries h3)"
  proof
    fix x assume "x \<in> set post"
    with valid have "entry x < length (entries h)" by simp
    with s1(1) len3 show "entry x < length (entries h3)" by simp
  qed
  note s3 = inputStep_frame [OF processInputPosition_inputStep [OF rest vpost]]
  have "trees h' ! ?t = trees h3 ! ?t"
    using s3(5) [of ?t] tl3 by simp
  moreover have "forward (entries h' ! ?e) = Some ?t" if "?e \<notin> entry ` set post"
  proof -
    have "entries h' ! ?e = entries h3 ! ?e"
      using s3(4) [OF _ that] e1 len3 by simp
    also have "\<dots> = entries ?h2 ! ?e"
      by (rule grows_old_entry [OF g e2])
    finally show ?thesis using f2 by simp
  qed
  moreover have "reverse (entries h1 ! ?e) = reverse (entries h ! ?e)"
    by (rule s1(3) [OF e])
  ultimately show ?thesis
    using pre loop rest nxt nxt' s1(2) e1 by blast
qed

lemma processInputPosition_distinct_tables:
  "processInputPosition individualSub rangeSub glyphs position cur recs lookups h
     = Inr (nextEntries, h')
   \<Longrightarrow> \<forall>x \<in> set cur. entry x < length (entries h)
   \<Longrightarrow> c1 \<in> set cur \<Longrightarrow> c2 \<in> set cur \<Longrightarrow> entry c1 \<noteq> entry c2
   \<Longrightarrow> forward (entries h' ! entry c1) \<noteq> forward (entries h' ! entry c2)"
proof (induction cur arbitrary: h nextEntries h' c1 c2)
  case Nil
  then show ?case by simp
next
  case (Cons c rest)
  from processInputPosition_at [of "[]" c rest h individualSub rangeSub glyphs position recs lookups
      nextEntries h'] Cons.prems(1,2)
  obtain n2 h3 n3 where
    loop: "inputGlyphs individualSub rangeSub (dedupGlyphs glyphs) position c recs lookups
          (h\<lparr>entries := (entries h)[entry c :=
                   (entries h ! entry c)\<lparr>forward := Some (length (trees h))\<rparr>],
              trees := trees h @ [\<lparr>individual = [], range' = []\<rparr>]\<rparr>) = Inr (n2, h3)"
    and rest: "processInputPosition individualSub rangeSub glyphs position rest recs lookups h3
          = Inr (n3, h')"
    and fwd: "entry c \<notin> entry ` set rest \<longrightarrow> forward (entries h' ! entry c) = Some (length (trees h))"
    by auto
  let ?h2 = "h\<lparr>entries := (entries h)[entry c :=
                   (entries h ! entry c)\<lparr>forward := Some (length (trees h))\<rparr>],
              trees := trees h @ [\<lparr>individual = [], range' = []\<rparr>]\<rparr>"
  have e: "entry c < length (entries h)" using Cons.prems(2) by simp
  have g: "grows (length (trees h)) ?h2 h3"
    using inputGlyphs_grows [OF loop, of "length (trees h)"] e by simp
  have len3: "length (entries h) \<le> length (entries h3)"
    using grows_length [OF g] by simp
  have tl3: "length (trees h3) = Suc (length (trees h))"
    using grows_trees(1) [OF g] by simp
  have vrest: "\<forall>x \<in> set rest. entry x < length (entries h3)"
  proof
    fix x assume "x \<in> set rest"
    with Cons.prems(2) have "entry x < length (entries h)" by simp
    with len3 show "entry x < length (entries h3)" by simp
  qed
  note step = processInputPosition_inputStep [OF rest vrest]
  have later: "\<exists>t. forward (entries h' ! entry x) = Some t \<and> Suc (length (trees h)) \<le> t"
    if "x \<in> set rest" for x
    using inputStep_forward [OF step that] tl3 by simp
  have ih: "forward (entries h' ! entry x) \<noteq> forward (entries h' ! entry y)"
    if "x \<in> set rest" "y \<in> set rest" "entry x \<noteq> entry y" for x y
    using Cons.IH [OF rest vrest that] .
  have head: "forward (entries h' ! entry c) \<noteq> forward (entries h' ! entry y)"
    if y: "y \<in> set rest" "entry c \<noteq> entry y" for y
  proof (cases "entry c \<in> entry ` set rest")
    case True
    then obtain x where x: "x \<in> set rest" "entry x = entry c" by auto
    from ih [OF x(1) y(1)] x(2) y(2) show ?thesis by simp
  next
    case False
    with fwd have "forward (entries h' ! entry c) = Some (length (trees h))" by simp
    moreover from later [OF y(1)] obtain t where
      "forward (entries h' ! entry y) = Some t" "Suc (length (trees h)) \<le> t" by blast
    ultimately show ?thesis by simp
  qed
  from Cons.prems(3,4) consider "c1 = c" "c2 = c" | "c1 = c" "c2 \<in> set rest"
    | "c1 \<in> set rest" "c2 = c" | "c1 \<in> set rest" "c2 \<in> set rest" by auto
  then show ?case
  proof cases
    case 1
    with Cons.prems(5) show ?thesis by simp
  next
    case 2
    with head [of c2] Cons.prems(5) show ?thesis by simp
  next
    case 3
    with head [of c1] Cons.prems(5) show ?thesis by (simp add: eq_commute)
  next
    case 4
    with ih Cons.prems(5) show ?thesis by simp
  qed
qed

text \<open>
  Claim C3 (unconditional forward reset at input steps). Take any current entry of a call
  of \<^verbatim>\<open>processInputPosition\<close> on existing entries. The call processes the current
  entries before it, then inserts this position's candidates for the entry, starting from
  the heap in which the entry's forward branch-point is a tree that has just been created
  and is empty, whatever the forward branch-point was before and with the reverse
  branch-point as it was, and then processes the current entries after it. Nothing that
  follows changes that tree, and it stays the entry's forward branch-point unless the
  entry occurs again later in the list. So after the call the forward branch-point of every
  current entry is a tree created by this call that holds entries created by this call
  only, different current entries have different trees, the reverse branch-points are
  what they were, and no tree that existed before the call is changed.
\<close>

theorem processInputPosition_resets_forward:
  "(\<forall>x \<in> set (pre @ c # post). entry x < length (entries h))
   \<and> processInputPosition individualSub rangeSub glyphs position (pre @ c # post) lookupRecords
         lookups h = Inr (nextEntries, h') \<longrightarrow>
   (\<exists>n1 h1 n2 h3 n3.
       processInputPosition individualSub rangeSub glyphs position pre lookupRecords lookups h
         = Inr (n1, h1)
     \<and> length (trees h) \<le> length (trees h1)
     \<and> entry c < length (entries h1)
     \<and> reverse (entries h1 ! entry c) = reverse (entries h ! entry c)
     \<and> inputGlyphs individualSub rangeSub (dedupGlyphs glyphs) position c lookupRecords lookups
          (h1\<lparr>entries := (entries h1)[entry c :=
                   (entries h1 ! entry c)\<lparr>forward := Some (length (trees h1))\<rparr>],
              trees := trees h1 @ [\<lparr>individual = [], range' = []\<rparr>]\<rparr>) = Inr (n2, h3)
     \<and> processInputPosition individualSub rangeSub glyphs position post lookupRecords lookups h3
          = Inr (n3, h')
     \<and> nextEntries = n1 @ n2 @ n3
     \<and> trees h' ! length (trees h1) = trees h3 ! length (trees h1)
     \<and> (entry c \<notin> entry ` set post \<longrightarrow>
           forward (entries h' ! entry c) = Some (length (trees h1))))
   \<and> (\<forall>x \<in> set (pre @ c # post). \<exists>t.
       forward (entries h' ! entry x) = Some t
       \<and> length (trees h) \<le> t \<and> t < length (trees h')
       \<and> (\<forall>y \<in> children t h'. length (entries h) \<le> y)
       \<and> (\<forall>y \<in> snd ` set (range' (trees h' ! t)). length (entries h) \<le> y)
       \<and> (glyphs = [] \<longrightarrow> trees h' ! t = \<lparr>individual = [], range' = []\<rparr>)
       \<and> reverse (entries h' ! entry x) = reverse (entries h ! entry x))
   \<and> (\<forall>x \<in> set (pre @ c # post). \<forall>y \<in> set (pre @ c # post). entry x \<noteq> entry y \<longrightarrow>
         forward (entries h' ! entry x) \<noteq> forward (entries h' ! entry y))
   \<and> (\<forall>t < length (trees h). trees h' ! t = trees h ! t)"
proof (intro impI, elim conjE)
  let ?cur = "pre @ c # post"
  assume valid: "\<forall>x \<in> set ?cur. entry x < length (entries h)"
    and call: "processInputPosition individualSub rangeSub glyphs position ?cur
         lookupRecords lookups h = Inr (nextEntries, h')"
  note step = processInputPosition_inputStep [OF call valid, unfolded inputStep_def]
  have each: "\<exists>t. forward (entries h' ! entry x) = Some t
       \<and> length (trees h) \<le> t \<and> t < length (trees h')
       \<and> (\<forall>y \<in> children t h'. length (entries h) \<le> y)
       \<and> (\<forall>y \<in> snd ` set (range' (trees h' ! t)). length (entries h) \<le> y)
       \<and> (glyphs = [] \<longrightarrow> trees h' ! t = \<lparr>individual = [], range' = []\<rparr>)
       \<and> reverse (entries h' ! entry x) = reverse (entries h ! entry x)"
    if x: "x \<in> set ?cur" for x
  proof -
    from step x obtain t where t: "forward (entries h' ! entry x) = Some t"
      "length (trees h) \<le> t" "t < length (trees h')"
      "\<forall>y \<in> children t h'. length (entries h) \<le> y \<and> y < length (entries h')"
      "\<forall>y \<in> snd ` set (range' (trees h' ! t)). length (entries h) \<le> y \<and> y < length (entries h')"
      "glyphs = [] \<longrightarrow> trees h' ! t = \<lparr>individual = [], range' = []\<rparr>"
      by blast
    moreover have "reverse (entries h' ! entry x) = reverse (entries h ! entry x)"
      using step valid x by blast
    ultimately show ?thesis by blast
  qed
  have old: "\<forall>t < length (trees h). trees h' ! t = trees h ! t"
    using step by blast
  have apart: "\<forall>x \<in> set ?cur. \<forall>y \<in> set ?cur. entry x \<noteq> entry y \<longrightarrow>
         forward (entries h' ! entry x) \<noteq> forward (entries h' ! entry y)"
    using processInputPosition_distinct_tables [OF call valid] by blast
  from processInputPosition_at [OF valid call] each old apart
  show "(\<exists>n1 h1 n2 h3 n3.
       processInputPosition individualSub rangeSub glyphs position pre lookupRecords lookups h
         = Inr (n1, h1)
     \<and> length (trees h) \<le> length (trees h1)
     \<and> entry c < length (entries h1)
     \<and> reverse (entries h1 ! entry c) = reverse (entries h ! entry c)
     \<and> inputGlyphs individualSub rangeSub (dedupGlyphs glyphs) position c lookupRecords lookups
          (h1\<lparr>entries := (entries h1)[entry c :=
                   (entries h1 ! entry c)\<lparr>forward := Some (length (trees h1))\<rparr>],
              trees := trees h1 @ [\<lparr>individual = [], range' = []\<rparr>]\<rparr>) = Inr (n2, h3)
     \<and> processInputPosition individualSub rangeSub glyphs position post lookupRecords lookups h3
          = Inr (n3, h')
     \<and> nextEntries = n1 @ n2 @ n3
     \<and> trees h' ! length (trees h1) = trees h3 ! length (trees h1)
     \<and> (entry c \<notin> entry ` set post \<longrightarrow>
           forward (entries h' ! entry c) = Some (length (trees h1))))
   \<and> (\<forall>x \<in> set (pre @ c # post). \<exists>t.
       forward (entries h' ! entry x) = Some t
       \<and> length (trees h) \<le> t \<and> t < length (trees h')
       \<and> (\<forall>y \<in> children t h'. length (entries h) \<le> y)
       \<and> (\<forall>y \<in> snd ` set (range' (trees h' ! t)). length (entries h) \<le> y)
       \<and> (glyphs = [] \<longrightarrow> trees h' ! t = \<lparr>individual = [], range' = []\<rparr>)
       \<and> reverse (entries h' ! entry x) = reverse (entries h ! entry x))
   \<and> (\<forall>x \<in> set (pre @ c # post). \<forall>y \<in> set (pre @ c # post). entry x \<noteq> entry y \<longrightarrow>
         forward (entries h' ! entry x) \<noteq> forward (entries h' ! entry y))
   \<and> (\<forall>t < length (trees h). trees h' ! t = trees h ! t)"
    by (intro conjI) blast+
qed


theorem processInputPosition_resets_forward_witness:
  "list_all (\<lambda>x. entry x < length (entries exampleHeap))
     ([\<lparr>entry = 0, substitutions = []\<rparr>] @ \<lparr>entry = 1, substitutions = [Some 66]\<rparr> # [])
   \<and> processInputPosition map_of exampleRangeSub [Single 70] 5
        ([\<lparr>entry = 0, substitutions = []\<rparr>] @ \<lparr>entry = 1, substitutions = [Some 66]\<rparr> # [])
        exampleRecords exampleLookups exampleHeap
      = Inr ([\<lparr>entry = 3, substitutions = [None]\<rparr>, \<lparr>entry = 4, substitutions = [Some 66, None]\<rparr>],
             exampleHeapBoth)
   \<and> forward (entries exampleHeap ! 0) = Some 0
   \<and> trees exampleHeap ! 0 = \<lparr>individual = [(65, 1)], range' = []\<rparr>
   \<and> forward (entries exampleHeap ! 1) = Some 1
   \<and> trees exampleHeap ! 1 = \<lparr>individual = [(66, 2)], range' = []\<rparr>
   \<and> forward (entries exampleHeapBoth ! 0) = Some 2
   \<and> trees exampleHeapBoth ! 2 = \<lparr>individual = [(70, 3)], range' = []\<rparr>
   \<and> forward (entries exampleHeapBoth ! 1) = Some 3
   \<and> trees exampleHeapBoth ! 3 = \<lparr>individual = [(70, 4)], range' = []\<rparr>
   \<and> forward (entries exampleHeapBoth ! 0) \<noteq> forward (entries exampleHeapBoth ! 1)
   \<and> trees exampleHeapBoth ! 0 = trees exampleHeap ! 0
   \<and> trees exampleHeapBoth ! 1 = trees exampleHeap ! 1"
proof -
  have valid: "\<forall>x \<in> set ([\<lparr>entry = 0, substitutions = []\<rparr>]
      @ \<lparr>entry = 1, substitutions = [Some 66]\<rparr> # []). entry x < length (entries exampleHeap)"
    by (simp add: exampleHeap_def)
  have call: "processInputPosition map_of exampleRangeSub [Single 70] 5
        ([\<lparr>entry = 0, substitutions = []\<rparr>] @ \<lparr>entry = 1, substitutions = [Some 66]\<rparr> # [])
        exampleRecords exampleLookups exampleHeap
      = Inr ([\<lparr>entry = 3, substitutions = [None]\<rparr>, \<lparr>entry = 4, substitutions = [Some 66, None]\<rparr>],
             exampleHeapBoth)"
    by code_simp
  note inst = processInputPosition_resets_forward [of "[\<lparr>entry = 0, substitutions = []\<rparr>]"
      "\<lparr>entry = 1, substitutions = [Some 66]\<rparr>" "[]" exampleHeap map_of exampleRangeSub
      "[Single 70]" 5 exampleRecords exampleLookups
      "[\<lparr>entry = 3, substitutions = [None]\<rparr>, \<lparr>entry = 4, substitutions = [Some 66, None]\<rparr>]"
      exampleHeapBoth]
  from inst valid call have apart: "\<forall>x \<in> set ([\<lparr>entry = 0, substitutions = []\<rparr>]
        @ \<lparr>entry = 1, substitutions = [Some 66]\<rparr> # []).
      \<forall>y \<in> set ([\<lparr>entry = 0, substitutions = []\<rparr>]
        @ \<lparr>entry = 1, substitutions = [Some 66]\<rparr> # []). entry x \<noteq> entry y \<longrightarrow>
         forward (entries exampleHeapBoth ! entry x) \<noteq> forward (entries exampleHeapBoth ! entry y)"
    by blast
  then have "forward (entries exampleHeapBoth ! 0) \<noteq> forward (entries exampleHeapBoth ! 1)"
    by simp
  with valid call show ?thesis
    by (simp add: exampleHeap_def exampleHeapBoth_def)
qed

text \<open>
  Claim C2 (tree sharing), as the code has it. \<^verbatim>\<open>processInputPosition\<close> never reuses
  a node: every entry it returns is created by the call, and the forward branch-point it
  leaves at a current entry is a new tree that refers to entries created by the call only.
  Two rules processed from the same root share the root and nothing behind it.
\<close>

theorem processInputPosition_fresh_nodes:
  "(\<forall>c \<in> set currentEntries. entry c < length (entries h))
   \<and> processInputPosition individualSub rangeSub glyphs position currentEntries lookupRecords
         lookups h = Inr (nextEntries, h') \<longrightarrow>
   (\<forall>m \<in> set nextEntries. length (entries h) \<le> entry m \<and> entry m < length (entries h'))
   \<and> (\<forall>c \<in> set currentEntries. \<exists>t. forward (entries h' ! entry c) = Some t
         \<and> length (trees h) \<le> t
         \<and> (\<forall>g x. individualGet t g h' = Some x \<longrightarrow> length (entries h) \<le> x)
         \<and> (\<forall>r x. (r, x) \<in> set (range' (trees h' ! t)) \<longrightarrow> length (entries h) \<le> x))"
proof (intro impI, elim conjE)
  assume valid: "\<forall>c \<in> set currentEntries. entry c < length (entries h)"
    and call: "processInputPosition individualSub rangeSub glyphs position currentEntries
         lookupRecords lookups h = Inr (nextEntries, h')"
  note step = processInputPosition_inputStep [OF call valid, unfolded inputStep_def]
  have "\<exists>t. forward (entries h' ! entry c) = Some t
         \<and> length (trees h) \<le> t
         \<and> (\<forall>g x. individualGet t g h' = Some x \<longrightarrow> length (entries h) \<le> x)
         \<and> (\<forall>r x. (r, x) \<in> set (range' (trees h' ! t)) \<longrightarrow> length (entries h) \<le> x)"
    if c: "c \<in> set currentEntries" for c
  proof -
    from step c obtain t where t: "forward (entries h' ! entry c) = Some t"
      "length (trees h) \<le> t"
      "\<forall>x \<in> children t h'. length (entries h) \<le> x \<and> x < length (entries h')"
      "\<forall>x \<in> snd ` set (range' (trees h' ! t)). length (entries h) \<le> x \<and> x < length (entries h')"
      by blast
    have "length (entries h) \<le> x" if "individualGet t g h' = Some x" for g x
    proof -
      from that have "(g, x) \<in> set (individual (trees h' ! t))"
        unfolding individualGet_def by (rule map_of_SomeD)
      then have "x \<in> children t h'" by (force simp: children_def)
      with t(3) show ?thesis by blast
    qed
    moreover have "length (entries h) \<le> x" if "(r, x) \<in> set (range' (trees h' ! t))" for r x
    proof -
      from that have "x \<in> snd ` set (range' (trees h' ! t))" by force
      with t(4) show ?thesis by blast
    qed
    ultimately show ?thesis using t(1,2) by blast
  qed
  moreover have "\<forall>m \<in> set nextEntries. length (entries h) \<le> entry m \<and> entry m < length (entries h')"
    using step by blast
  ultimately show "(\<forall>m \<in> set nextEntries. length (entries h) \<le> entry m \<and> entry m < length (entries h'))
   \<and> (\<forall>c \<in> set currentEntries. \<exists>t. forward (entries h' ! entry c) = Some t
         \<and> length (trees h) \<le> t
         \<and> (\<forall>g x. individualGet t g h' = Some x \<longrightarrow> length (entries h) \<le> x)
         \<and> (\<forall>r x. (r, x) \<in> set (range' (trees h' ! t)) \<longrightarrow> length (entries h) \<le> x))"
    by blast
qed


theorem processInputPosition_fresh_nodes_witness:
  "list_all (\<lambda>c. entry c < length (entries rootHeap)) [\<lparr>entry = 0, substitutions = []\<rparr>]
   \<and> processInputPosition map_of exampleRangeSub [Single 65, Range (70, 80)] 0
        [\<lparr>entry = 0, substitutions = []\<rparr>] exampleRecords exampleLookups rootHeap
      = Inr ([\<lparr>entry = 1, substitutions = [Some 66]\<rparr>, \<lparr>entry = 2, substitutions = [None]\<rparr>,
              \<lparr>entry = 4, substitutions = [None]\<rparr>],
          \<lparr>entries = [\<lparr>forward = Some 0, reverse = None\<rparr>, \<lparr>forward = None, reverse = None\<rparr>,
                      \<lparr>forward = None, reverse = None\<rparr>, \<lparr>forward = None, reverse = None\<rparr>,
                      \<lparr>forward = None, reverse = None\<rparr>],
           trees = [\<lparr>individual = [(65, 1), (70, 3)], range' = [((71, 80), 4)]\<rparr>]\<rparr>)
   \<and> length (entries rootHeap) \<le> 1"
proof -
  have valid: "\<forall>c \<in> set [\<lparr>entry = 0, substitutions = []\<rparr>]. entry c < length (entries rootHeap)"
    by (simp add: rootHeap_def)
  have call: "processInputPosition map_of exampleRangeSub [Single 65, Range (70, 80)] 0
        [\<lparr>entry = 0, substitutions = []\<rparr>] exampleRecords exampleLookups rootHeap
      = Inr ([\<lparr>entry = 1, substitutions = [Some 66]\<rparr>, \<lparr>entry = 2, substitutions = [None]\<rparr>,
              \<lparr>entry = 4, substitutions = [None]\<rparr>],
          \<lparr>entries = [\<lparr>forward = Some 0, reverse = None\<rparr>, \<lparr>forward = None, reverse = None\<rparr>,
                      \<lparr>forward = None, reverse = None\<rparr>, \<lparr>forward = None, reverse = None\<rparr>,
                      \<lparr>forward = None, reverse = None\<rparr>],
           trees = [\<lparr>individual = [(65, 1), (70, 3)], range' = [((71, 80), 4)]\<rparr>]\<rparr>)"
    by code_simp
  from processInputPosition_fresh_nodes [of "[\<lparr>entry = 0, substitutions = []\<rparr>]" rootHeap
      map_of exampleRangeSub "[Single 65, Range (70, 80)]" 0 exampleRecords exampleLookups
      "[\<lparr>entry = 1, substitutions = [Some 66]\<rparr>, \<lparr>entry = 2, substitutions = [None]\<rparr>,
              \<lparr>entry = 4, substitutions = [None]\<rparr>]"
      "\<lparr>entries = [\<lparr>forward = Some 0, reverse = None\<rparr>, \<lparr>forward = None, reverse = None\<rparr>,
                      \<lparr>forward = None, reverse = None\<rparr>, \<lparr>forward = None, reverse = None\<rparr>,
                      \<lparr>forward = None, reverse = None\<rparr>],
           trees = [\<lparr>individual = [(65, 1), (70, 3)], range' = [((71, 80), 4)]\<rparr>]\<rparr>"]
    valid call
  have "\<forall>m \<in> set [\<lparr>entry = 1, substitutions = [Some 66]\<rparr>, \<lparr>entry = 2, substitutions = [None]\<rparr>,
              \<lparr>entry = 4, substitutions = [None :: int option]\<rparr>]. length (entries rootHeap) \<le> entry m"
    by blast
  then have "length (entries rootHeap) \<le> 1"
    by simp
  with valid call show ?thesis
    by simp
qed

text \<open>
  The claim as it was stated fails. The first rule, with the input positions 65 and 66,
  compiles from the root to the example tree, where the root leads through 65 to entry 1.
  Processing the first input position of a second rule with the same candidate and the
  same substitution from the same root leads through 65 to the new entry 3.
\<close>

theorem tree_sharing_counterexample:
  "processInputPosition map_of exampleRangeSub [Single 65] 0 [\<lparr>entry = 0, substitutions = []\<rparr>]
      exampleRecords exampleLookups rootHeap
    = Inr ([\<lparr>entry = 1, substitutions = [Some 66]\<rparr>],
        \<lparr>entries = [\<lparr>forward = Some 0, reverse = None\<rparr>, \<lparr>forward = None, reverse = None\<rparr>],
         trees = [\<lparr>individual = [(65, 1)], range' = []\<rparr>]\<rparr>)
   \<and> processInputPosition map_of exampleRangeSub [Single 66] 1
      [\<lparr>entry = 1, substitutions = [Some 66]\<rparr>] exampleRecords exampleLookups
        \<lparr>entries = [\<lparr>forward = Some 0, reverse = None\<rparr>, \<lparr>forward = None, reverse = None\<rparr>],
         trees = [\<lparr>individual = [(65, 1)], range' = []\<rparr>]\<rparr>
    = Inr ([\<lparr>entry = 2, substitutions = [Some 66, None]\<rparr>], exampleHeap)
   \<and> processInputPosition map_of exampleRangeSub [Single 65] 0 [\<lparr>entry = 0, substitutions = []\<rparr>]
      exampleRecords exampleLookups exampleHeap
    = Inr ([\<lparr>entry = 3, substitutions = [Some 66]\<rparr>], exampleHeapAgain)
   \<and> individualGet (the (forward (entries exampleHeap ! 0))) 65 exampleHeap = Some 1
   \<and> individualGet (the (forward (entries exampleHeapAgain ! 0))) 65 exampleHeapAgain = Some 3"
  by code_simp

subsection \<open>processBacktrackPosition and processLookaheadPosition\<close>

lemma branch_direction:
  "branch Forward e = forward e" "branch Reverse e = reverse e"
  by (simp_all add: branch_def)

lemma setBranch_direction:
  "setBranch Forward e = setForward e" "setBranch Reverse e = setReverse e"
  by (intro ext, simp add: setBranch_def)+

lemma lookaheadGlyphs_context: "lookaheadGlyphs glyphs c h = contextGlyphs Forward glyphs c h"
  by (induction glyphs arbitrary: h)
     (simp_all only: lookaheadGlyphs.simps contextGlyphs.simps branch_direction setBranch_direction)

lemma backtrackGlyphs_context: "backtrackGlyphs glyphs c h = contextGlyphs Reverse glyphs c h"
  by (induction glyphs arbitrary: h)
     (simp_all only: backtrackGlyphs.simps contextGlyphs.simps branch_direction setBranch_direction)

lemma processLookaheadPosition_context:
  "processLookaheadPosition glyphs cur h = processContextPosition Forward glyphs cur h"
  by (induction cur arbitrary: h) (simp_all add: lookaheadGlyphs_context)

lemma processBacktrackPosition_context:
  "processBacktrackPosition glyphs cur h = processContextPosition Reverse glyphs cur h"
  by (induction cur arbitrary: h) (simp_all add: backtrackGlyphs_context)

lemma setBranch_simps [simp]:
  "entries (setBranch d e t h) = (entries h)[e := withBranch d t (entries h ! e)]"
  "trees (setBranch d e t h) = trees h"
  by (cases d; simp add: setBranch_def withBranch_def)+

lemma branch_withBranch [simp]:
  "branch d (withBranch d t e) = Some t"
  "branch (opposite d) (withBranch d t e) = branch (opposite d) e"
  by (cases d; simp add: branch_def withBranch_def opposite_def)+

lemma withBranch_same: "branch d e = Some t \<Longrightarrow> withBranch d t e = e"
  by (cases d) (simp_all add: branch_def withBranch_def)

lemma branch_empty [simp]: "branch d \<lparr>forward = None, reverse = None\<rparr> = None"
  by (cases d) (simp_all add: branch_def)

text \<open>The loop over the candidates when the branch-point exists.\<close>

lemma contextGlyphs_existing:
  "e < length (entries h) \<Longrightarrow> entry c = e \<Longrightarrow> branch d (entries h ! e) = Some t
   \<Longrightarrow> t < length (trees h) \<Longrightarrow>
   contextGlyphs d glyphs c h =
     (map (\<lambda>a. \<lparr>entry = a, substitutions = substitutions c\<rparr>)
        [length (entries h) ..< length (entries h) + length glyphs],
      h\<lparr>entries := entries h @ replicate (length glyphs) \<lparr>forward = None, reverse = None\<rparr>,
        trees := (trees h)[t := linkGlyphs glyphs (length (entries h)) (trees h ! t)]\<rparr>)"
proof (induction glyphs arbitrary: h)
  case Nil
  then show ?case by simp
next
  case (Cons glyph glyphs)
  define a where "a = length (entries h)"
  define h1 where "h1 = snd (newEntry h)"
  define h3 where "h3 = (case glyph of Range r \<Rightarrow> rangePush t r a h1
                           | Single g \<Rightarrow> individualSet t g a h1)"
  have e1: "entries h1 ! e = entries h ! e"
    using Cons.prems(1) by (simp add: h1_def nth_append)
  have entries3: "entries h3 = entries h @ [\<lparr>forward = None, reverse = None\<rparr>]"
    by (cases glyph) (simp_all add: h3_def h1_def)
  have trees3: "trees h3 = (trees h)[t := linkGlyphs [glyph] a (trees h ! t)]"
    by (cases glyph) (simp_all add: h3_def h1_def)
  have step: "contextGlyphs d (glyph # glyphs) c h =
      (case contextGlyphs d glyphs c h3 of
         (nextEntries, h4) \<Rightarrow> (\<lparr>entry = a, substitutions = substitutions c\<rparr> # nextEntries, h4))"
    using Cons.prems(2,3) e1
    by (cases glyph) (simp_all add: split_beta Let_def h3_def h1_def [symmetric] a_def)
  have ih: "contextGlyphs d glyphs c h3 =
     (map (\<lambda>a. \<lparr>entry = a, substitutions = substitutions c\<rparr>)
        [length (entries h3) ..< length (entries h3) + length glyphs],
      h3\<lparr>entries := entries h3 @ replicate (length glyphs) \<lparr>forward = None, reverse = None\<rparr>,
        trees := (trees h3)[t := linkGlyphs glyphs (length (entries h3)) (trees h3 ! t)]\<rparr>)"
    using Cons.prems by (intro Cons.IH) (simp_all add: entries3 trees3 nth_append)
  have link: "linkGlyphs glyphs (Suc a) (linkGlyphs [glyph] a (trees h ! t))
      = linkGlyphs (glyph # glyphs) a (trees h ! t)"
    by (cases glyph) simp_all
  have heap: "h3\<lparr>entries := entries h3 @ replicate (length glyphs) \<lparr>forward = None, reverse = None\<rparr>,
        trees := (trees h3)[t := linkGlyphs glyphs (length (entries h3)) (trees h3 ! t)]\<rparr>
     = h\<lparr>entries := entries h @ replicate (length (glyph # glyphs)) \<lparr>forward = None, reverse = None\<rparr>,
        trees := (trees h)[t := linkGlyphs (glyph # glyphs) (length (entries h)) (trees h ! t)]\<rparr>"
    using Cons.prems(4) link
    by (cases glyph) (simp_all add: h3_def h1_def a_def newEntry_def rangePush_def individualSet_def)
  have "[a ..< a + Suc (length glyphs)] = a # [Suc a ..< Suc a + length glyphs]"
    by (subst upt_rec) simp
  then have upt: "[length (entries h) ..< length (entries h) + length (glyph # glyphs)]
      = a # [length (entries h3) ..< length (entries h3) + length glyphs]"
    by (simp only: entries3 a_def length_append list.size length_Cons add_Suc_right add_0_right One_nat_def)
  show ?case
    unfolding step ih heap upt by simp
qed


text \<open>The loop over the candidates when the branch-point is absent.\<close>

lemma contextGlyphs_absent:
  assumes "entry c < length (entries h)" "branch d (entries h ! entry c) = None"
  shows "contextGlyphs d (glyph # glyphs) c h =
     (map (\<lambda>a. \<lparr>entry = a, substitutions = substitutions c\<rparr>)
        [length (entries h) ..< length (entries h) + length (glyph # glyphs)],
      h\<lparr>entries := (entries h)[entry c := withBranch d (length (trees h)) (entries h ! entry c)]
                    @ replicate (length (glyph # glyphs)) \<lparr>forward = None, reverse = None\<rparr>,
        trees := trees h @ [linkGlyphs (glyph # glyphs) (length (entries h))
                              \<lparr>individual = [], range' = []\<rparr>]\<rparr>)"
proof -
  define a where "a = length (entries h)"
  define t where "t = length (trees h)"
  define h2 where "h2 = setBranch d (entry c) t (snd (newTree (snd (newEntry h))))"
  define h3 where "h3 = (case glyph of Range r \<Rightarrow> rangePush t r a h2
                           | Single g \<Rightarrow> individualSet t g a h2)"
  have entries2: "entries h2 = (entries h)[entry c := withBranch d t (entries h ! entry c)]
      @ [\<lparr>forward = None, reverse = None\<rparr>]"
    using assms(1) by (simp add: h2_def list_update_append nth_append)
  have trees2: "trees h2 = trees h @ [\<lparr>individual = [], range' = []\<rparr>]"
    by (simp add: h2_def)
  have b2: "branch d (entries h2 ! entry c) = Some t"
    using assms(1) by (simp add: entries2 nth_append)
  have entries3: "entries h3 = entries h2"
    by (cases glyph) (simp_all add: h3_def)
  have trees3: "trees h3 = trees h @ [linkGlyphs [glyph] a \<lparr>individual = [], range' = []\<rparr>]"
    by (cases glyph) (simp_all add: h3_def trees2 t_def)
  have step: "contextGlyphs d (glyph # glyphs) c h =
      (case contextGlyphs d glyphs c h3 of
         (nextEntries, h4) \<Rightarrow> (\<lparr>entry = a, substitutions = substitutions c\<rparr> # nextEntries, h4))"
    using assms b2
    by (cases glyph)
       (simp_all add: split_beta Let_def nth_append h3_def h2_def a_def t_def)
  have e3: "entry c < length (entries h3)"
    using assms(1) by (simp add: entries3 entries2)
  have b3: "branch d (entries h3 ! entry c) = Some t"
    using b2 by (simp add: entries3)
  have t3: "t < length (trees h3)"
    by (simp add: trees3 t_def)
  note ex = contextGlyphs_existing [OF e3 refl b3 t3, of glyphs]
  have link: "linkGlyphs glyphs (Suc a) (linkGlyphs [glyph] a \<lparr>individual = [], range' = []\<rparr>)
      = linkGlyphs (glyph # glyphs) a \<lparr>individual = [], range' = []\<rparr>"
    by (cases glyph) simp_all
  have len3: "length (entries h3) = Suc a"
    by (simp add: entries3 entries2 a_def)
  have heap: "h3\<lparr>entries := entries h3 @ replicate (length glyphs) \<lparr>forward = None, reverse = None\<rparr>,
        trees := (trees h3)[t := linkGlyphs glyphs (length (entries h3)) (trees h3 ! t)]\<rparr>
     = h\<lparr>entries := (entries h)[entry c := withBranch d (length (trees h)) (entries h ! entry c)]
                    @ replicate (length (glyph # glyphs)) \<lparr>forward = None, reverse = None\<rparr>,
        trees := trees h @ [linkGlyphs (glyph # glyphs) (length (entries h))
                              \<lparr>individual = [], range' = []\<rparr>]\<rparr>"
  proof (rule heap.equality)
    show "entries (h3\<lparr>entries := entries h3 @ replicate (length glyphs) \<lparr>forward = None, reverse = None\<rparr>,
        trees := (trees h3)[t := linkGlyphs glyphs (length (entries h3)) (trees h3 ! t)]\<rparr>)
      = entries (h\<lparr>entries := (entries h)[entry c := withBranch d (length (trees h)) (entries h ! entry c)]
                    @ replicate (length (glyph # glyphs)) \<lparr>forward = None, reverse = None\<rparr>,
        trees := trees h @ [linkGlyphs (glyph # glyphs) (length (entries h))
                              \<lparr>individual = [], range' = []\<rparr>]\<rparr>)"
      by (simp add: entries3 entries2 t_def)
    show "trees (h3\<lparr>entries := entries h3 @ replicate (length glyphs) \<lparr>forward = None, reverse = None\<rparr>,
        trees := (trees h3)[t := linkGlyphs glyphs (length (entries h3)) (trees h3 ! t)]\<rparr>)
      = trees (h\<lparr>entries := (entries h)[entry c := withBranch d (length (trees h)) (entries h ! entry c)]
                    @ replicate (length (glyph # glyphs)) \<lparr>forward = None, reverse = None\<rparr>,
        trees := trees h @ [linkGlyphs (glyph # glyphs) (length (entries h))
                              \<lparr>individual = [], range' = []\<rparr>]\<rparr>)"
      using link by (simp add: len3 trees3 t_def a_def)
    show "heap.more (h3\<lparr>entries := entries h3 @ replicate (length glyphs) \<lparr>forward = None, reverse = None\<rparr>,
        trees := (trees h3)[t := linkGlyphs glyphs (length (entries h3)) (trees h3 ! t)]\<rparr>)
      = heap.more (h\<lparr>entries := (entries h)[entry c := withBranch d (length (trees h)) (entries h ! entry c)]
                    @ replicate (length (glyph # glyphs)) \<lparr>forward = None, reverse = None\<rparr>,
        trees := trees h @ [linkGlyphs (glyph # glyphs) (length (entries h))
                              \<lparr>individual = [], range' = []\<rparr>]\<rparr>)"
      by (cases glyph; cases d)
         (simp_all add: h3_def h2_def rangePush_def individualSet_def setBranch_def setForward_def
            setReverse_def newTree_def newEntry_def)
  qed
  have "[a ..< a + Suc (length glyphs)] = a # [Suc a ..< Suc a + length glyphs]"
    by (subst upt_rec) simp
  then have upt: "[length (entries h) ..< length (entries h) + length (glyph # glyphs)]
      = a # [length (entries h3) ..< length (entries h3) + length glyphs]"
    by (simp only: len3 a_def length_append list.size length_Cons add_Suc_right add_0_right One_nat_def)
  show ?thesis
    unfolding step ex heap upt by simp
qed

subsection \<open>What linking the candidates does to a tree\<close>

lemma linkGlyphs_ranges: "\<exists>new. range' (linkGlyphs glyphs a tree) = range' tree @ new"
proof (induction glyphs a tree rule: linkGlyphs.induct)
  case (1 a tree)
  then show ?case by simp
next
  case (2 r glyphs a tree)
  then show ?case by auto
next
  case (3 g glyphs a tree)
  then show ?case by auto
qed

lemma linkGlyphs_other:
  "Single g \<notin> set glyphs \<Longrightarrow>
   map_of (individual (linkGlyphs glyphs a tree)) g = map_of (individual tree) g"
  by (induction glyphs a tree rule: linkGlyphs.induct) (auto simp: update_conv')

lemma linkGlyphs_keeps_keys:
  "map_of (individual tree) g \<noteq> None \<Longrightarrow>
   map_of (individual (linkGlyphs glyphs a tree)) g \<noteq> None"
  by (induction glyphs a tree rule: linkGlyphs.induct) (auto simp: update_conv')

lemma linkGlyphs_keys:
  "fst ` set (individual (linkGlyphs glyphs a tree))
     = fst ` set (individual tree) \<union> {g. Single g \<in> set glyphs}"
  "fst ` set (range' (linkGlyphs glyphs a tree))
     = fst ` set (range' tree) \<union> {r. Range r \<in> set glyphs}"
  by (induction glyphs a tree rule: linkGlyphs.induct) (auto simp: dom_update)

lemma linkGlyphs_linked:
  "distinct glyphs \<Longrightarrow> j < length glyphs \<Longrightarrow>
   (case glyphs ! j of
      Single g \<Rightarrow> map_of (individual (linkGlyphs glyphs a tree)) g = Some (a + j)
    | Range r \<Rightarrow> (r, a + j) \<in> set (range' (linkGlyphs glyphs a tree)))"
proof (induction glyphs a tree arbitrary: j rule: linkGlyphs.induct)
  case (1 a tree)
  then show ?case by simp
next
  case (2 r glyphs a tree)
  show ?case
  proof (cases j)
    case 0
    obtain new where "range' (linkGlyphs glyphs (Suc a) (tree\<lparr>range' := range' tree @ [(r, a)]\<rparr>))
        = range' (tree\<lparr>range' := range' tree @ [(r, a)]\<rparr>) @ new"
      using linkGlyphs_ranges by blast
    then show ?thesis using 0 by simp
  next
    case (Suc j')
    have "distinct glyphs" "j' < length glyphs" using 2(2,3) Suc by simp_all
    from 2(1) [OF this] show ?thesis
      using Suc by (cases "glyphs ! j'") simp_all
  qed
next
  case (3 g glyphs a tree)
  show ?case
  proof (cases j)
    case 0
    have "Single g \<notin> set glyphs" using 3(2) by simp
    then show ?thesis using 0 by (simp add: linkGlyphs_other update_conv')
  next
    case (Suc j')
    have "distinct glyphs" "j' < length glyphs" using 3(2,3) Suc by simp_all
    from 3(1) [OF this] show ?thesis
      using Suc by (cases "glyphs ! j'") simp_all
  qed
qed

text \<open>One round of the outer loop: the loop over the candidates for one current entry.\<close>

lemma contextGlyphs_round:
  assumes e: "entry c < length (entries h)"
    and w': "\<forall>t. branch d (entries h ! entry c) = Some t \<longrightarrow> t < length (trees h)"
    and call: "contextGlyphs d gs c h = (next1, h1)"
  shows "next1 = map (\<lambda>a. \<lparr>entry = a, substitutions = substitutions c\<rparr>)
                   [length (entries h) ..< length (entries h) + length gs]"
    and "length (entries h1) = length (entries h) + length gs"
    and "length (trees h) \<le> length (trees h1)"
    and "\<And>x. x < length (entries h) \<Longrightarrow> x \<noteq> entry c \<Longrightarrow> entries h1 ! x = entries h ! x"
    and "\<And>x. length (entries h) \<le> x \<Longrightarrow> x < length (entries h) + length gs \<Longrightarrow>
           entries h1 ! x = \<lparr>forward = None, reverse = None\<rparr>"
    and "\<And>t. t < length (trees h) \<Longrightarrow> branch d (entries h ! entry c) \<noteq> Some t \<Longrightarrow>
           trees h1 ! t = trees h ! t"
    and "branch (opposite d) (entries h1 ! entry c) = branch (opposite d) (entries h ! entry c)"
    and "\<And>t. branch d (entries h ! entry c) = Some t \<Longrightarrow>
           branch d (entries h1 ! entry c) = Some t
           \<and> trees h1 ! t = linkGlyphs gs (length (entries h)) (trees h ! t)"
    and "branch d (entries h ! entry c) = None \<Longrightarrow> gs = [] \<Longrightarrow> h1 = h"
    and "branch d (entries h ! entry c) = None \<Longrightarrow> gs \<noteq> [] \<Longrightarrow>
           branch d (entries h1 ! entry c) = Some (length (trees h))
           \<and> length (trees h) < length (trees h1)
           \<and> trees h1 ! length (trees h)
               = linkGlyphs gs (length (entries h)) \<lparr>individual = [], range' = []\<rparr>"
proof -
  have w: "t < length (trees h)" if "branch d (entries h ! entry c) = Some t" for t
    using w' that by blast
  consider (existing) t where "branch d (entries h ! entry c) = Some t"
    | (empty) "branch d (entries h ! entry c) = None" "gs = []"
    | (absent) g gs' where "branch d (entries h ! entry c) = None" "gs = g # gs'"
    by (cases "branch d (entries h ! entry c)"; cases gs) auto
  then have "next1 = map (\<lambda>a. \<lparr>entry = a, substitutions = substitutions c\<rparr>)
                   [length (entries h) ..< length (entries h) + length gs]
    \<and> length (entries h1) = length (entries h) + length gs
    \<and> length (trees h) \<le> length (trees h1)
    \<and> (\<forall>x. x < length (entries h) \<longrightarrow> x \<noteq> entry c \<longrightarrow> entries h1 ! x = entries h ! x)
    \<and> (\<forall>x. length (entries h) \<le> x \<longrightarrow> x < length (entries h) + length gs \<longrightarrow>
           entries h1 ! x = \<lparr>forward = None, reverse = None\<rparr>)
    \<and> (\<forall>t. t < length (trees h) \<longrightarrow> branch d (entries h ! entry c) \<noteq> Some t \<longrightarrow>
           trees h1 ! t = trees h ! t)
    \<and> branch (opposite d) (entries h1 ! entry c) = branch (opposite d) (entries h ! entry c)
    \<and> (\<forall>t. branch d (entries h ! entry c) = Some t \<longrightarrow>
           branch d (entries h1 ! entry c) = Some t
           \<and> trees h1 ! t = linkGlyphs gs (length (entries h)) (trees h ! t))
    \<and> (branch d (entries h ! entry c) = None \<longrightarrow> gs = [] \<longrightarrow> h1 = h)
    \<and> (branch d (entries h ! entry c) = None \<longrightarrow> gs \<noteq> [] \<longrightarrow>
           branch d (entries h1 ! entry c) = Some (length (trees h))
           \<and> length (trees h) < length (trees h1)
           \<and> trees h1 ! length (trees h)
               = linkGlyphs gs (length (entries h)) \<lparr>individual = [], range' = []\<rparr>)"
  proof cases
    case existing
    note ex = contextGlyphs_existing [OF e refl existing w [OF existing], of gs]
    from call [unfolded ex] have
      n: "next1 = map (\<lambda>a. \<lparr>entry = a, substitutions = substitutions c\<rparr>)
                   [length (entries h) ..< length (entries h) + length gs]"
      and h1: "h1 = h\<lparr>entries := entries h @ replicate (length gs) \<lparr>forward = None, reverse = None\<rparr>,
        trees := (trees h)[t := linkGlyphs gs (length (entries h)) (trees h ! t)]\<rparr>"
      by simp_all
    show ?thesis
      using e w [OF existing] existing
      by (simp add: n h1 nth_append)
  next
    case empty
    with call show ?thesis by simp
  next
    case absent
    note ab = contextGlyphs_absent [OF e absent(1), of g gs']
    from call [unfolded absent(2) ab] have
      n: "next1 = map (\<lambda>a. \<lparr>entry = a, substitutions = substitutions c\<rparr>)
                   [length (entries h) ..< length (entries h) + length (g # gs')]"
      and h1: "h1 = h\<lparr>entries := (entries h)[entry c := withBranch d (length (trees h)) (entries h ! entry c)]
                    @ replicate (length (g # gs')) \<lparr>forward = None, reverse = None\<rparr>,
        trees := trees h @ [linkGlyphs (g # gs') (length (entries h))
                              \<lparr>individual = [], range' = []\<rparr>]\<rparr>"
      by simp_all
    show ?thesis
      using e absent(1)
      unfolding absent(2) n h1
      by (simp add: nth_append del: linkGlyphs.simps replicate.simps)
  qed
  then show "next1 = map (\<lambda>a. \<lparr>entry = a, substitutions = substitutions c\<rparr>)
                   [length (entries h) ..< length (entries h) + length gs]"
    and "length (entries h1) = length (entries h) + length gs"
    and "length (trees h) \<le> length (trees h1)"
    and "\<And>x. x < length (entries h) \<Longrightarrow> x \<noteq> entry c \<Longrightarrow> entries h1 ! x = entries h ! x"
    and "\<And>x. length (entries h) \<le> x \<Longrightarrow> x < length (entries h) + length gs \<Longrightarrow>
           entries h1 ! x = \<lparr>forward = None, reverse = None\<rparr>"
    and "\<And>t. t < length (trees h) \<Longrightarrow> branch d (entries h ! entry c) \<noteq> Some t \<Longrightarrow>
           trees h1 ! t = trees h ! t"
    and "branch (opposite d) (entries h1 ! entry c) = branch (opposite d) (entries h ! entry c)"
    and "\<And>t. branch d (entries h ! entry c) = Some t \<Longrightarrow>
           branch d (entries h1 ! entry c) = Some t
           \<and> trees h1 ! t = linkGlyphs gs (length (entries h)) (trees h ! t)"
    and "branch d (entries h ! entry c) = None \<Longrightarrow> gs = [] \<Longrightarrow> h1 = h"
    and "branch d (entries h ! entry c) = None \<Longrightarrow> gs \<noteq> [] \<Longrightarrow>
           branch d (entries h1 ! entry c) = Some (length (trees h))
           \<and> length (trees h) < length (trees h1)
           \<and> trees h1 ! length (trees h)
               = linkGlyphs gs (length (entries h)) \<lparr>individual = [], range' = []\<rparr>"
    by blast+
qed


lemma contextStepI:
  assumes "length nextEntries = length cur * length gs"
    and "length (entries h') = length (entries h) + length cur * length gs"
    and "length (trees h) \<le> length (trees h')"
    and "\<And>x. x < length (entries h) \<Longrightarrow> x \<notin> entry ` set cur \<Longrightarrow> entries h' ! x = entries h ! x"
    and "\<And>x. length (entries h) \<le> x \<Longrightarrow> x < length (entries h) + length cur * length gs \<Longrightarrow>
            entries h' ! x = \<lparr>forward = None, reverse = None\<rparr>"
    and "\<And>t. t < length (trees h) \<Longrightarrow> \<forall>c \<in> set cur. branch d (entries h ! entry c) \<noteq> Some t \<Longrightarrow>
            trees h' ! t = trees h ! t"
    and "\<And>i j. i < length cur \<Longrightarrow> j < length gs \<Longrightarrow>
           nextEntries ! (i * length gs + j)
               = \<lparr>entry = length (entries h) + i * length gs + j,
                  substitutions = substitutions (cur ! i)\<rparr>"
    and "\<And>i. i < length cur \<Longrightarrow> branch (opposite d) (entries h' ! entry (cur ! i))
               = branch (opposite d) (entries h ! entry (cur ! i))"
    and "\<And>i t. i < length cur \<Longrightarrow> branch d (entries h ! entry (cur ! i)) = Some t \<Longrightarrow>
           branch d (entries h' ! entry (cur ! i)) = Some t
           \<and> trees h' ! t = linkGlyphs gs (length (entries h) + i * length gs) (trees h ! t)"
    and "\<And>i. i < length cur \<Longrightarrow> branch d (entries h ! entry (cur ! i)) = None \<Longrightarrow> gs = [] \<Longrightarrow>
           branch d (entries h' ! entry (cur ! i)) = None"
    and "\<And>i. i < length cur \<Longrightarrow> branch d (entries h ! entry (cur ! i)) = None \<Longrightarrow> gs \<noteq> [] \<Longrightarrow>
           \<exists>t. branch d (entries h' ! entry (cur ! i)) = Some t
                          \<and> length (trees h) \<le> t \<and> t < length (trees h')
                          \<and> trees h' ! t
                              = linkGlyphs gs (length (entries h) + i * length gs)
                                  \<lparr>individual = [], range' = []\<rparr>"
  shows "contextStep d gs cur h nextEntries h'"
  unfolding contextStep_def
proof (intro conjI allI impI)
  fix i assume i: "i < length cur"
  show "case branch d (entries h ! entry (cur ! i)) of
          None \<Rightarrow>
            if gs = [] then branch d (entries h' ! entry (cur ! i)) = None
            else \<exists>t. branch d (entries h' ! entry (cur ! i)) = Some t \<and>
                     length (trees h) \<le> t \<and> t < length (trees h') \<and>
                     trees h' ! t =
                     linkGlyphs gs (length (entries h) + i * length gs)
                      \<lparr>individual = [], range' = []\<rparr>
        | Some t \<Rightarrow>
            branch d (entries h' ! entry (cur ! i)) = Some t \<and>
            trees h' ! t =
            linkGlyphs gs (length (entries h) + i * length gs) (trees h ! t)"
    using assms(9) [OF i] assms(10) [OF i] assms(11) [OF i]
    by (cases "branch d (entries h ! entry (cur ! i))") simp_all
qed (use assms in \<open>simp_all\<close>)

lemma contextStepD:
  assumes "contextStep d gs cur h nextEntries h'"
  shows "length nextEntries = length cur * length gs"
    and "length (entries h') = length (entries h) + length cur * length gs"
    and "length (trees h) \<le> length (trees h')"
    and "\<And>x. x < length (entries h) \<Longrightarrow> x \<notin> entry ` set cur \<Longrightarrow> entries h' ! x = entries h ! x"
    and "\<And>x. length (entries h) \<le> x \<Longrightarrow> x < length (entries h) + length cur * length gs \<Longrightarrow>
            entries h' ! x = \<lparr>forward = None, reverse = None\<rparr>"
    and "\<And>t. t < length (trees h) \<Longrightarrow> \<forall>c \<in> set cur. branch d (entries h ! entry c) \<noteq> Some t \<Longrightarrow>
            trees h' ! t = trees h ! t"
    and "\<And>i j. i < length cur \<Longrightarrow> j < length gs \<Longrightarrow>
           nextEntries ! (i * length gs + j)
               = \<lparr>entry = length (entries h) + i * length gs + j,
                  substitutions = substitutions (cur ! i)\<rparr>"
    and "\<And>i. i < length cur \<Longrightarrow> branch (opposite d) (entries h' ! entry (cur ! i))
               = branch (opposite d) (entries h ! entry (cur ! i))"
    and "\<And>i t. i < length cur \<Longrightarrow> branch d (entries h ! entry (cur ! i)) = Some t \<Longrightarrow>
           branch d (entries h' ! entry (cur ! i)) = Some t
           \<and> trees h' ! t = linkGlyphs gs (length (entries h) + i * length gs) (trees h ! t)"
    and "\<And>i. i < length cur \<Longrightarrow> branch d (entries h ! entry (cur ! i)) = None \<Longrightarrow> gs = [] \<Longrightarrow>
           branch d (entries h' ! entry (cur ! i)) = None"
    and "\<And>i. i < length cur \<Longrightarrow> branch d (entries h ! entry (cur ! i)) = None \<Longrightarrow> gs \<noteq> [] \<Longrightarrow>
           \<exists>t. branch d (entries h' ! entry (cur ! i)) = Some t
                          \<and> length (trees h) \<le> t \<and> t < length (trees h')
                          \<and> trees h' ! t
                              = linkGlyphs gs (length (entries h) + i * length gs)
                                  \<lparr>individual = [], range' = []\<rparr>"
proof -
  note a = assms [unfolded contextStep_def]
  show "length nextEntries = length cur * length gs"
    "length (entries h') = length (entries h) + length cur * length gs"
    "length (trees h) \<le> length (trees h')"
    using a by simp_all
  show "\<And>x. x < length (entries h) \<Longrightarrow> x \<notin> entry ` set cur \<Longrightarrow> entries h' ! x = entries h ! x"
    using a by simp
  show "\<And>x. length (entries h) \<le> x \<Longrightarrow> x < length (entries h) + length cur * length gs \<Longrightarrow>
            entries h' ! x = \<lparr>forward = None, reverse = None\<rparr>"
    using a by simp
  show "\<And>t. t < length (trees h) \<Longrightarrow> \<forall>c \<in> set cur. branch d (entries h ! entry c) \<noteq> Some t \<Longrightarrow>
            trees h' ! t = trees h ! t"
    using a by simp
  have b: "(\<forall>j < length gs. nextEntries ! (i * length gs + j)
               = \<lparr>entry = length (entries h) + i * length gs + j,
                  substitutions = substitutions (cur ! i)\<rparr>)
           \<and> branch (opposite d) (entries h' ! entry (cur ! i))
               = branch (opposite d) (entries h ! entry (cur ! i))
           \<and> (case branch d (entries h ! entry (cur ! i)) of
                 Some t \<Rightarrow>
                   branch d (entries h' ! entry (cur ! i)) = Some t
                   \<and> trees h' ! t
                       = linkGlyphs gs (length (entries h) + i * length gs) (trees h ! t)
               | None \<Rightarrow>
                   if gs = [] then branch d (entries h' ! entry (cur ! i)) = None
                   else (\<exists>t. branch d (entries h' ! entry (cur ! i)) = Some t
                          \<and> length (trees h) \<le> t \<and> t < length (trees h')
                          \<and> trees h' ! t
                              = linkGlyphs gs (length (entries h) + i * length gs)
                                  \<lparr>individual = [], range' = []\<rparr>))"
    if "i < length cur" for i
    using a that by blast
  show "\<And>i j. i < length cur \<Longrightarrow> j < length gs \<Longrightarrow>
           nextEntries ! (i * length gs + j)
               = \<lparr>entry = length (entries h) + i * length gs + j,
                  substitutions = substitutions (cur ! i)\<rparr>"
    using b by blast
  show "\<And>i. i < length cur \<Longrightarrow> branch (opposite d) (entries h' ! entry (cur ! i))
               = branch (opposite d) (entries h ! entry (cur ! i))"
    using b by blast
  show "\<And>i t. i < length cur \<Longrightarrow> branch d (entries h ! entry (cur ! i)) = Some t \<Longrightarrow>
           branch d (entries h' ! entry (cur ! i)) = Some t
           \<and> trees h' ! t = linkGlyphs gs (length (entries h) + i * length gs) (trees h ! t)"
    using b by force
  show "\<And>i. i < length cur \<Longrightarrow> branch d (entries h ! entry (cur ! i)) = None \<Longrightarrow> gs = [] \<Longrightarrow>
           branch d (entries h' ! entry (cur ! i)) = None"
    using b by force
  show "\<And>i. i < length cur \<Longrightarrow> branch d (entries h ! entry (cur ! i)) = None \<Longrightarrow> gs \<noteq> [] \<Longrightarrow>
           \<exists>t. branch d (entries h' ! entry (cur ! i)) = Some t
                          \<and> length (trees h) \<le> t \<and> t < length (trees h')
                          \<and> trees h' ! t
                              = linkGlyphs gs (length (entries h) + i * length gs)
                                  \<lparr>individual = [], range' = []\<rparr>"
    using b by force
qed



lemma separateD:
  assumes "separate d cur h" "c \<in> set cur"
  shows "entry c < length (entries h)"
    and "branch d (entries h ! entry c) = Some t \<Longrightarrow> t < length (trees h)"
    and "branch d (entries h ! entry c) = Some t \<Longrightarrow> c' \<in> set cur \<Longrightarrow> entry c' \<noteq> entry c
         \<Longrightarrow> branch d (entries h ! entry c') \<noteq> Some t"
proof -
  from assms(1) have all: "\<forall>c \<in> set cur. entry c < length (entries h)
           \<and> (\<forall>t. branch d (entries h ! entry c) = Some t \<longrightarrow>
                 t < length (trees h)
                 \<and> (\<forall>c' \<in> set cur. entry c' \<noteq> entry c \<longrightarrow>
                       branch d (entries h ! entry c') \<noteq> Some t))"
    unfolding separate_def by (rule conjunct2)
  from all assms(2) have one: "entry c < length (entries h)
           \<and> (\<forall>t. branch d (entries h ! entry c) = Some t \<longrightarrow>
                 t < length (trees h)
                 \<and> (\<forall>c' \<in> set cur. entry c' \<noteq> entry c \<longrightarrow>
                       branch d (entries h ! entry c') \<noteq> Some t))"
    by (rule bspec)
  from one show "entry c < length (entries h)" by (rule conjunct1)
  from one show "branch d (entries h ! entry c) = Some t \<Longrightarrow> t < length (trees h)" by blast
  from one show "branch d (entries h ! entry c) = Some t \<Longrightarrow> c' \<in> set cur \<Longrightarrow> entry c' \<noteq> entry c
         \<Longrightarrow> branch d (entries h ! entry c') \<noteq> Some t" by blast
qed

lemma separate_distinct: "separate d cur h \<Longrightarrow> distinct (map entry cur)"
  unfolding separate_def by (rule conjunct1)


lemma separate_Cons:
  assumes "separate d (c # rest) h"
  shows "entry c < length (entries h)"
    and "\<forall>t. branch d (entries h ! entry c) = Some t \<longrightarrow> t < length (trees h)"
    and "entry c \<notin> entry ` set rest"
    and "\<And>c' t. c' \<in> set rest \<Longrightarrow> branch d (entries h ! entry c) = Some t \<Longrightarrow>
           branch d (entries h ! entry c') \<noteq> Some t"
    and "\<And>c'. c' \<in> set rest \<Longrightarrow> entry c' < length (entries h)"
    and "\<And>c' t. c' \<in> set rest \<Longrightarrow> branch d (entries h ! entry c') = Some t \<Longrightarrow> t < length (trees h)"
proof -
  have c: "c \<in> set (c # rest)" by simp
  have r: "c' \<in> set (c # rest)" if "c' \<in> set rest" for c' using that by simp
  show "entry c < length (entries h)"
    by (rule separateD(1) [OF assms c])
  show "\<forall>t. branch d (entries h ! entry c) = Some t \<longrightarrow> t < length (trees h)"
    using separateD(2) [OF assms c] by blast
  have "distinct (map entry (c # rest))" by (rule separate_distinct [OF assms])
  then show n: "entry c \<notin> entry ` set rest" by simp
  show "branch d (entries h ! entry c') \<noteq> Some t"
    if "c' \<in> set rest" "branch d (entries h ! entry c) = Some t" for c' t
  proof -
    have "entry c' \<noteq> entry c" using n that(1) by (metis imageI)
    with separateD(3) [OF assms c that(2) r [OF that(1)]] show ?thesis .
  qed
  show "\<And>c'. c' \<in> set rest \<Longrightarrow> entry c' < length (entries h)"
    by (rule separateD(1) [OF assms r])
  show "\<And>c' t. c' \<in> set rest \<Longrightarrow> branch d (entries h ! entry c') = Some t \<Longrightarrow> t < length (trees h)"
    by (rule separateD(2) [OF assms r])
qed

lemma separate_rest:
  assumes "separate d (c # rest) h"
    and "length (entries h) \<le> length (entries h1)"
    and "length (trees h) \<le> length (trees h1)"
    and "\<And>x. x < length (entries h) \<Longrightarrow> x \<noteq> entry c \<Longrightarrow> entries h1 ! x = entries h ! x"
  shows "separate d rest h1"
proof -
  note sep = separate_Cons [OF assms(1)]
  have r: "c' \<in> set (c # rest)" if "c' \<in> set rest" for c' using that by simp
  have same: "entries h1 ! entry c' = entries h ! entry c'" if "c' \<in> set rest" for c'
  proof -
    have "entry c' \<noteq> entry c" using sep(3) that by (metis imageI)
    with sep(5) [OF that] show ?thesis by (rule assms(4))
  qed
  have "distinct (map entry (c # rest))" by (rule separate_distinct [OF assms(1)])
  then have d: "distinct (map entry rest)" by simp
  show ?thesis
    unfolding separate_def
  proof (intro conjI ballI allI impI)
    show "distinct (map entry rest)" by (rule d)
  next
    fix c' assume c': "c' \<in> set rest"
    show "entry c' < length (entries h1)" using sep(5) [OF c'] assms(2) by simp
  next
    fix c' t assume c': "c' \<in> set rest" and t: "branch d (entries h1 ! entry c') = Some t"
    then have t0: "branch d (entries h ! entry c') = Some t" by (simp add: same [OF c'])
    show "t < length (trees h1)" using sep(6) [OF c' t0] assms(3) by simp
  next
    fix c' t c'' assume c': "c' \<in> set rest" and t: "branch d (entries h1 ! entry c') = Some t"
      and c'': "c'' \<in> set rest" "entry c'' \<noteq> entry c'"
    from t have t0: "branch d (entries h ! entry c') = Some t" by (simp add: same [OF c'])
    have "branch d (entries h ! entry c'') \<noteq> Some t"
      by (rule separateD(3) [OF assms(1) r [OF c'] t0 r [OF c''(1)] c''(2)])
    then show "branch d (entries h1 ! entry c'') \<noteq> Some t" by (simp add: same [OF c''(1)])
  qed
qed

lemma processContextPosition_contextStep:
  "processContextPosition d glyphs cur h = (nextEntries, h') \<Longrightarrow> separate d cur h \<Longrightarrow>
   contextStep d (dedupGlyphs glyphs) cur h nextEntries h'"
proof (induction cur arbitrary: h nextEntries h')
  case Nil
  then show ?case by (auto simp: contextStep_def)
next
  case (Cons c rest)
  let ?gs = "dedupGlyphs glyphs"
  let ?k = "length (dedupGlyphs glyphs)"
  let ?a = "length (entries h)"
  from Cons.prems(1) obtain next1 h1 next2 where
    call: "contextGlyphs d ?gs c h = (next1, h1)"
    and rest: "processContextPosition d glyphs rest h1 = (next2, h')"
    and nxt: "nextEntries = next1 @ next2"
    by (auto split: prod.splits)
  note sep = separate_Cons [OF Cons.prems(2)]
  note r = contextGlyphs_round [OF sep(1) sep(2) call]
  have len1: "length (entries h) \<le> length (entries h1)"
    using r(2) by simp
  have sep1: "separate d rest h1"
    using Cons.prems(2) len1 r(3) r(4) by (rule separate_rest)
  note ih = contextStepD [OF Cons.IH [OF rest sep1]]
  note l1 = r(2)
  have same: "entries h1 ! entry c' = entries h ! entry c'" if "c' \<in> set rest" for c'
    using r(4) [of "entry c'"] sep(3,5) that by (metis imageI)
  have rest_lt: "entry c' < ?a" if "c' \<in> set rest" for c'
    using sep(5) that by simp
  have ln1: "length next1 = ?k"
    by (simp add: r(1))
  have ih2: "length (entries h') = ?a + ?k + length rest * ?k"
    using ih(2) l1 by simp
  have ih4: "entries h' ! x = entries h1 ! x" if "x < ?a + ?k" "x \<notin> entry ` set rest" for x
    using ih(4) [of x] l1 that by simp
  have ih5: "entries h' ! x = \<lparr>forward = None, reverse = None\<rparr>"
    if "?a + ?k \<le> x" "x < ?a + ?k + length rest * ?k" for x
    using ih(5) [of x] l1 that by simp
  have ih7: "next2 ! (i * ?k + j)
      = \<lparr>entry = ?a + ?k + i * ?k + j, substitutions = substitutions (rest ! i)\<rparr>"
    if "i < length rest" "j < ?k" for i j
    using ih(7) [OF that] l1 by simp
  have ih9: "branch d (entries h' ! entry (rest ! i)) = Some t
      \<and> trees h' ! t = linkGlyphs ?gs (?a + ?k + i * ?k) (trees h1 ! t)"
    if "i < length rest" "branch d (entries h1 ! entry (rest ! i)) = Some t" for i t
    using ih(9) [OF that] l1 by simp
  have ih11: "\<exists>t. branch d (entries h' ! entry (rest ! i)) = Some t
      \<and> length (trees h1) \<le> t \<and> t < length (trees h')
      \<and> trees h' ! t = linkGlyphs ?gs (?a + ?k + i * ?k) \<lparr>individual = [], range' = []\<rparr>"
    if "i < length rest" "branch d (entries h1 ! entry (rest ! i)) = None" "?gs \<noteq> []" for i
    using ih(11) [OF that] l1 by simp
  have shift: "?a + ?k + i * ?k = ?a + Suc i * ?k" for i
    by simp
  have keep: "entries h' ! entry c = entries h1 ! entry c"
    using ih4 [of "entry c"] sep(1,3) by simp
  show ?case
  proof (rule contextStepI)
    show "length nextEntries = length (c # rest) * ?k"
      using ih(1) ln1 by (simp add: nxt)
    show "length (entries h') = ?a + length (c # rest) * ?k"
      using ih2 by simp
    show "length (trees h) \<le> length (trees h')"
      using ih(3) r(3) by simp
    show "entries h' ! x = entries h ! x" if "x < ?a" "x \<notin> entry ` set (c # rest)" for x
      using ih4 [of x] r(4) [of x] that by simp
    show "entries h' ! x = \<lparr>forward = None, reverse = None\<rparr>"
      if "?a \<le> x" "x < ?a + length (c # rest) * ?k" for x
    proof (cases "x < ?a + ?k")
      case True
      have "x \<notin> entry ` set rest"
      proof
        assume "x \<in> entry ` set rest"
        then obtain c' where "c' \<in> set rest" "x = entry c'" by blast
        with rest_lt [of c'] that(1) show False by simp
      qed
      then have "entries h' ! x = entries h1 ! x" using ih4 [of x] True by simp
      then show ?thesis using r(5) [OF that(1) True] by simp
    next
      case False
      then show ?thesis using ih5 [of x] that(2) by simp
    qed
    show "trees h' ! t = trees h ! t"
      if "t < length (trees h)" "\<forall>c' \<in> set (c # rest). branch d (entries h ! entry c') \<noteq> Some t" for t
    proof -
      have "trees h1 ! t = trees h ! t" using r(6) [OF that(1)] that(2) by simp
      moreover have "\<forall>c' \<in> set rest. branch d (entries h1 ! entry c') \<noteq> Some t"
        using that(2) same by simp
      then have "trees h' ! t = trees h1 ! t"
        using ih(6) [of t] that(1) r(3) by simp
      ultimately show ?thesis by simp
    qed
    show "nextEntries ! (i * ?k + j) = \<lparr>entry = ?a + i * ?k + j, substitutions = substitutions ((c # rest) ! i)\<rparr>"
      if "i < length (c # rest)" "j < ?k" for i j
    proof (cases i)
      case 0
      then show ?thesis using that(2) ln1 by (simp add: nxt nth_append r(1))
    next
      case (Suc i')
      have "(next1 @ next2) ! (length next1 + (i' * ?k + j)) = next2 ! (i' * ?k + j)"
        by (rule nth_append_length_plus)
      moreover have "length next1 + (i' * ?k + j) = i * ?k + j"
        by (simp add: ln1 Suc)
      ultimately have "nextEntries ! (i * ?k + j) = next2 ! (i' * ?k + j)"
        by (simp add: nxt)
      moreover have "i' < length rest" using that(1) Suc by simp
      ultimately show ?thesis using ih7 [of i' j] that(2) Suc by simp
    qed
    show "branch (opposite d) (entries h' ! entry ((c # rest) ! i))
        = branch (opposite d) (entries h ! entry ((c # rest) ! i))"
      if "i < length (c # rest)" for i
    proof (cases i)
      case 0
      then show ?thesis using keep r(7) by simp
    next
      case (Suc i')
      then have i': "i' < length rest" using that by simp
      then have "rest ! i' \<in> set rest" by simp
      then show ?thesis using ih(8) [OF i'] same [of "rest ! i'"] Suc by simp
    qed
    show "branch d (entries h' ! entry ((c # rest) ! i)) = Some t
        \<and> trees h' ! t = linkGlyphs ?gs (?a + i * ?k) (trees h ! t)"
      if "i < length (c # rest)" "branch d (entries h ! entry ((c # rest) ! i)) = Some t" for i t
    proof (cases i)
      case 0
      with that(2) have b: "branch d (entries h ! entry c) = Some t" by simp
      have "\<forall>c' \<in> set rest. branch d (entries h1 ! entry c') \<noteq> Some t"
        using sep(4) [OF _ b] same by simp
      then have "trees h' ! t = trees h1 ! t"
        using ih(6) [of t] sep(2) b r(3) by simp
      then show ?thesis using r(8) [OF b] keep 0 by simp
    next
      case (Suc i')
      with that have i': "i' < length rest" and b: "branch d (entries h ! entry (rest ! i')) = Some t"
        by simp_all
      have in_rest: "rest ! i' \<in> set rest" using i' by simp
      have b1: "branch d (entries h1 ! entry (rest ! i')) = Some t"
        using b same [OF in_rest] by simp
      have "branch d (entries h ! entry c) \<noteq> Some t"
        using sep(4) [OF in_rest] b by blast
      then have "trees h1 ! t = trees h ! t"
        using r(6) [of t] sep(6) [OF in_rest b] by simp
      then show ?thesis using ih9 [OF i' b1] Suc by (simp only: shift nth_Cons_Suc) 
    qed
    show "branch d (entries h' ! entry ((c # rest) ! i)) = None"
      if "i < length (c # rest)" "branch d (entries h ! entry ((c # rest) ! i)) = None" "?gs = []" for i
    proof (cases i)
      case 0
      then show ?thesis using keep r(9) that by simp
    next
      case (Suc i')
      then have i': "i' < length rest" using that by simp
      then have in_rest: "rest ! i' \<in> set rest" by simp
      have "branch d (entries h1 ! entry (rest ! i')) = None"
        using that(2) same [OF in_rest] Suc by simp
      from ih(10) [OF i' this that(3)] show ?thesis using Suc by simp
    qed
    show "\<exists>t. branch d (entries h' ! entry ((c # rest) ! i)) = Some t
            \<and> length (trees h) \<le> t \<and> t < length (trees h')
            \<and> trees h' ! t = linkGlyphs ?gs (?a + i * ?k) \<lparr>individual = [], range' = []\<rparr>"
      if "i < length (c # rest)" "branch d (entries h ! entry ((c # rest) ! i)) = None" "?gs \<noteq> []" for i
    proof (cases i)
      case 0
      with that(2) have b: "branch d (entries h ! entry c) = None" by simp
      note n = r(10) [OF b that(3)]
      have "branch d (entries h1 ! entry c') \<noteq> Some (length (trees h))" if "c' \<in> set rest" for c'
        using sep(6) [OF that, of "length (trees h)"] same [OF that] by auto
      then have "trees h' ! length (trees h) = trees h1 ! length (trees h)"
        using ih(6) [of "length (trees h)"] n by simp
      moreover have "length (trees h) < length (trees h')"
        using n ih(3) by simp
      ultimately show ?thesis
        using n keep 0 by (intro exI [of _ "length (trees h)"]) simp
    next
      case (Suc i')
      with that have i': "i' < length rest" and b: "branch d (entries h ! entry (rest ! i')) = None"
        by simp_all
      have in_rest: "rest ! i' \<in> set rest" using i' by simp
      have b1: "branch d (entries h1 ! entry (rest ! i')) = None"
        using b same [OF in_rest] by simp
      from ih11 [OF i' b1 that(3)] obtain t where
        t: "branch d (entries h' ! entry (rest ! i')) = Some t" "length (trees h1) \<le> t"
        "t < length (trees h')"
        "trees h' ! t = linkGlyphs ?gs (?a + ?k + i' * ?k) \<lparr>individual = [], range' = []\<rparr>"
        by blast
      have "trees h' ! t = linkGlyphs ?gs (?a + i * ?k) \<lparr>individual = [], range' = []\<rparr>"
        using t(4) by (simp only: shift Suc)
      then show ?thesis using t(1,2,3) r(3) Suc by (intro exI [of _ t]) simp
    qed
  qed
qed

lemma contextGlyphs_substitutions:
  "map substitutions (fst (contextGlyphs d gs c h)) = replicate (length gs) (substitutions c)"
  by (induction gs arbitrary: h) (simp_all add: split_beta Let_def)

lemma processContextPosition_substitutions:
  "map substitutions (fst (processContextPosition d glyphs cur h))
   = concat (map (\<lambda>c. replicate (length (dedupGlyphs glyphs)) (substitutions c)) cur)"
  by (induction cur arbitrary: h) (simp_all add: split_beta contextGlyphs_substitutions)

lemma distinct_dedupGlyphs: "distinct (dedupGlyphs glyphs)"
  by (simp add: dedupGlyphs_firstOccurrences distinct_firstOccurrences)

lemma set_dedupGlyphs: "set (dedupGlyphs glyphs) = set glyphs"
  by (simp add: dedupGlyphs_firstOccurrences set_firstOccurrences)

text \<open>
  Claim C6 (backtrack and lookahead steps), as the code has it. Every returned
  \<^verbatim>\<open>EntryMeta\<close> carries the substitutions of the current entry it extends. For
  separate current entries, each step is a context step in the reverse, respectively the
  forward, direction: a branch-point is created only where it is absent; an existing one is
  kept, and each deduplicated candidate is linked in it to a new entry without
  branch-points, a range at the end of the range list and a glyph in the individual map.
  Linking keeps the range list as a prefix and keeps the map's children under all glyphs
  that are not candidates; under a candidate glyph the new entry takes the place of the
  child that was there.
\<close>

theorem context_positions:
  "map substitutions (fst (processBacktrackPosition glyphs currentEntries h))
     = concat (map (\<lambda>c. replicate (length (dedupGlyphs glyphs)) (substitutions c)) currentEntries)
   \<and> map substitutions (fst (processLookaheadPosition glyphs currentEntries h))
     = concat (map (\<lambda>c. replicate (length (dedupGlyphs glyphs)) (substitutions c)) currentEntries)
   \<and> (separate Reverse currentEntries h \<longrightarrow>
        contextStep Reverse (dedupGlyphs glyphs) currentEntries h
          (fst (processBacktrackPosition glyphs currentEntries h))
          (snd (processBacktrackPosition glyphs currentEntries h)))
   \<and> (separate Forward currentEntries h \<longrightarrow>
        contextStep Forward (dedupGlyphs glyphs) currentEntries h
          (fst (processLookaheadPosition glyphs currentEntries h))
          (snd (processLookaheadPosition glyphs currentEntries h)))
   \<and> (\<forall>j < length (dedupGlyphs glyphs).
         case dedupGlyphs glyphs ! j of
           Single g \<Rightarrow> map_of (individual (linkGlyphs (dedupGlyphs glyphs) a tree)) g = Some (a + j)
         | Range r \<Rightarrow> (r, a + j) \<in> set (range' (linkGlyphs (dedupGlyphs glyphs) a tree)))
   \<and> (\<exists>new. range' (linkGlyphs (dedupGlyphs glyphs) a tree) = range' tree @ new)
   \<and> (\<forall>g. Single g \<notin> set glyphs \<longrightarrow>
         map_of (individual (linkGlyphs (dedupGlyphs glyphs) a tree)) g = map_of (individual tree) g)
   \<and> fst ` set (individual (linkGlyphs (dedupGlyphs glyphs) a tree))
       = fst ` set (individual tree) \<union> {g. Single g \<in> set glyphs}
   \<and> fst ` set (range' (linkGlyphs (dedupGlyphs glyphs) a tree))
       = fst ` set (range' tree) \<union> {r. Range r \<in> set glyphs}"
proof (intro conjI)
  show "map substitutions (fst (processBacktrackPosition glyphs currentEntries h))
     = concat (map (\<lambda>c. replicate (length (dedupGlyphs glyphs)) (substitutions c)) currentEntries)"
    unfolding processBacktrackPosition_context by (rule processContextPosition_substitutions)
  show "map substitutions (fst (processLookaheadPosition glyphs currentEntries h))
     = concat (map (\<lambda>c. replicate (length (dedupGlyphs glyphs)) (substitutions c)) currentEntries)"
    unfolding processLookaheadPosition_context by (rule processContextPosition_substitutions)
  show "separate Reverse currentEntries h \<longrightarrow>
        contextStep Reverse (dedupGlyphs glyphs) currentEntries h
          (fst (processBacktrackPosition glyphs currentEntries h))
          (snd (processBacktrackPosition glyphs currentEntries h))"
    unfolding processBacktrackPosition_context
    by (intro impI processContextPosition_contextStep) simp_all
  show "separate Forward currentEntries h \<longrightarrow>
        contextStep Forward (dedupGlyphs glyphs) currentEntries h
          (fst (processLookaheadPosition glyphs currentEntries h))
          (snd (processLookaheadPosition glyphs currentEntries h))"
    unfolding processLookaheadPosition_context
    by (intro impI processContextPosition_contextStep) simp_all
  show "\<forall>j < length (dedupGlyphs glyphs).
         case dedupGlyphs glyphs ! j of
           Single g \<Rightarrow> map_of (individual (linkGlyphs (dedupGlyphs glyphs) a tree)) g = Some (a + j)
         | Range r \<Rightarrow> (r, a + j) \<in> set (range' (linkGlyphs (dedupGlyphs glyphs) a tree))"
    using linkGlyphs_linked [OF distinct_dedupGlyphs] by blast
  show "\<exists>new. range' (linkGlyphs (dedupGlyphs glyphs) a tree) = range' tree @ new"
    by (rule linkGlyphs_ranges)
  show "\<forall>g. Single g \<notin> set glyphs \<longrightarrow>
         map_of (individual (linkGlyphs (dedupGlyphs glyphs) a tree)) g = map_of (individual tree) g"
    by (simp add: linkGlyphs_other set_dedupGlyphs)
  show "fst ` set (individual (linkGlyphs (dedupGlyphs glyphs) a tree))
       = fst ` set (individual tree) \<union> {g. Single g \<in> set glyphs}"
    by (simp add: linkGlyphs_keys set_dedupGlyphs)
  show "fst ` set (range' (linkGlyphs (dedupGlyphs glyphs) a tree))
       = fst ` set (range' tree) \<union> {r. Range r \<in> set glyphs}"
    by (simp add: linkGlyphs_keys set_dedupGlyphs)
qed


theorem context_positions_witness:
  "separate Reverse [\<lparr>entry = 0, substitutions = [Some 7]\<rparr>] exampleReverseHeap
   \<and> processBacktrackPosition [Single 65, Range (30, 40), Single 66, Single 65]
        [\<lparr>entry = 0, substitutions = [Some 7]\<rparr>] exampleReverseHeap
      = ([\<lparr>entry = 3, substitutions = [Some 7]\<rparr>, \<lparr>entry = 4, substitutions = [Some 7]\<rparr>,
          \<lparr>entry = 5, substitutions = [Some 7]\<rparr>],
         \<lparr>entries = [\<lparr>forward = None, reverse = Some 0\<rparr>, \<lparr>forward = None, reverse = None\<rparr>,
                     \<lparr>forward = None, reverse = None\<rparr>, \<lparr>forward = None, reverse = None\<rparr>,
                     \<lparr>forward = None, reverse = None\<rparr>, \<lparr>forward = None, reverse = None\<rparr>],
          trees = [\<lparr>individual = [(65, 3), (66, 5)],
                    range' = [((10, 20), 2), ((30, 40), 4)]\<rparr>]\<rparr>)
   \<and> separate Forward [\<lparr>entry = 0, substitutions = [Some 7]\<rparr>, \<lparr>entry = 1, substitutions = [None]\<rparr>]
        exampleReverseHeap
   \<and> processLookaheadPosition [Single 65, Range (30, 40)]
        [\<lparr>entry = 0, substitutions = [Some 7]\<rparr>, \<lparr>entry = 1, substitutions = [None]\<rparr>]
        exampleReverseHeap
      = ([\<lparr>entry = 3, substitutions = [Some 7]\<rparr>, \<lparr>entry = 4, substitutions = [Some 7]\<rparr>,
          \<lparr>entry = 5, substitutions = [None]\<rparr>, \<lparr>entry = 6, substitutions = [None]\<rparr>],
         \<lparr>entries = [\<lparr>forward = Some 1, reverse = Some 0\<rparr>, \<lparr>forward = Some 2, reverse = None\<rparr>,
                     \<lparr>forward = None, reverse = None\<rparr>, \<lparr>forward = None, reverse = None\<rparr>,
                     \<lparr>forward = None, reverse = None\<rparr>, \<lparr>forward = None, reverse = None\<rparr>,
                     \<lparr>forward = None, reverse = None\<rparr>],
          trees = [\<lparr>individual = [(65, 1)], range' = [((10, 20), 2)]\<rparr>,
                   \<lparr>individual = [(65, 3)], range' = [((30, 40), 4)]\<rparr>,
                   \<lparr>individual = [(65, 5)], range' = [((30, 40), 6)]\<rparr>]\<rparr>)
   \<and> contextStep Reverse (dedupGlyphs [Single 65, Range (30, 40), Single 66, Single 65])
        [\<lparr>entry = 0, substitutions = [Some 7]\<rparr>] exampleReverseHeap
        (fst (processBacktrackPosition [Single 65, Range (30, 40), Single 66, Single 65]
               [\<lparr>entry = 0, substitutions = [Some 7]\<rparr>] exampleReverseHeap))
        (snd (processBacktrackPosition [Single 65, Range (30, 40), Single 66, Single 65]
               [\<lparr>entry = 0, substitutions = [Some 7]\<rparr>] exampleReverseHeap))
   \<and> contextStep Forward (dedupGlyphs [Single 65, Range (30, 40)])
        [\<lparr>entry = 0, substitutions = [Some 7]\<rparr>, \<lparr>entry = 1, substitutions = [None]\<rparr>]
        exampleReverseHeap
        (fst (processLookaheadPosition [Single 65, Range (30, 40)]
               [\<lparr>entry = 0, substitutions = [Some 7]\<rparr>, \<lparr>entry = 1, substitutions = [None]\<rparr>]
               exampleReverseHeap))
        (snd (processLookaheadPosition [Single 65, Range (30, 40)]
               [\<lparr>entry = 0, substitutions = [Some 7]\<rparr>, \<lparr>entry = 1, substitutions = [None]\<rparr>]
               exampleReverseHeap))"
proof -
  have sepR: "separate Reverse [\<lparr>entry = 0, substitutions = [Some 7]\<rparr>] exampleReverseHeap"
    by (simp add: separate_def exampleReverseHeap_def branch_def)
  have sepF: "separate Forward
      [\<lparr>entry = 0, substitutions = [Some 7]\<rparr>, \<lparr>entry = 1, substitutions = [None]\<rparr>]
      exampleReverseHeap"
    by (simp add: separate_def exampleReverseHeap_def branch_def)
  have bt: "processBacktrackPosition [Single 65, Range (30, 40), Single 66, Single 65]
        [\<lparr>entry = 0, substitutions = [Some 7]\<rparr>] exampleReverseHeap
      = ([\<lparr>entry = 3, substitutions = [Some 7]\<rparr>, \<lparr>entry = 4, substitutions = [Some 7]\<rparr>,
          \<lparr>entry = 5, substitutions = [Some 7]\<rparr>],
         \<lparr>entries = [\<lparr>forward = None, reverse = Some 0\<rparr>, \<lparr>forward = None, reverse = None\<rparr>,
                     \<lparr>forward = None, reverse = None\<rparr>, \<lparr>forward = None, reverse = None\<rparr>,
                     \<lparr>forward = None, reverse = None\<rparr>, \<lparr>forward = None, reverse = None\<rparr>],
          trees = [\<lparr>individual = [(65, 3), (66, 5)],
                    range' = [((10, 20), 2), ((30, 40), 4)]\<rparr>]\<rparr>)"
    by code_simp
  have la: "processLookaheadPosition [Single 65, Range (30, 40)]
        [\<lparr>entry = 0, substitutions = [Some 7]\<rparr>, \<lparr>entry = 1, substitutions = [None]\<rparr>]
        exampleReverseHeap
      = ([\<lparr>entry = 3, substitutions = [Some 7]\<rparr>, \<lparr>entry = 4, substitutions = [Some 7]\<rparr>,
          \<lparr>entry = 5, substitutions = [None]\<rparr>, \<lparr>entry = 6, substitutions = [None]\<rparr>],
         \<lparr>entries = [\<lparr>forward = Some 1, reverse = Some 0\<rparr>, \<lparr>forward = Some 2, reverse = None\<rparr>,
                     \<lparr>forward = None, reverse = None\<rparr>, \<lparr>forward = None, reverse = None\<rparr>,
                     \<lparr>forward = None, reverse = None\<rparr>, \<lparr>forward = None, reverse = None\<rparr>,
                     \<lparr>forward = None, reverse = None\<rparr>],
          trees = [\<lparr>individual = [(65, 1)], range' = [((10, 20), 2)]\<rparr>,
                   \<lparr>individual = [(65, 3)], range' = [((30, 40), 4)]\<rparr>,
                   \<lparr>individual = [(65, 5)], range' = [((30, 40), 6)]\<rparr>]\<rparr>)"
    by code_simp
  from context_positions [of "[Single 65, Range (30, 40), Single 66, Single 65]"
      "[\<lparr>entry = 0, substitutions = [Some 7]\<rparr>]" exampleReverseHeap] sepR
  have stepR: "contextStep Reverse (dedupGlyphs [Single 65, Range (30, 40), Single 66, Single 65])
        [\<lparr>entry = 0, substitutions = [Some 7]\<rparr>] exampleReverseHeap
        (fst (processBacktrackPosition [Single 65, Range (30, 40), Single 66, Single 65]
               [\<lparr>entry = 0, substitutions = [Some 7]\<rparr>] exampleReverseHeap))
        (snd (processBacktrackPosition [Single 65, Range (30, 40), Single 66, Single 65]
               [\<lparr>entry = 0, substitutions = [Some 7]\<rparr>] exampleReverseHeap))"
    by blast
  from context_positions [of "[Single 65, Range (30, 40)]"
      "[\<lparr>entry = 0, substitutions = [Some 7]\<rparr>, \<lparr>entry = 1, substitutions = [None]\<rparr>]"
      exampleReverseHeap] sepF
  have stepF: "contextStep Forward (dedupGlyphs [Single 65, Range (30, 40)])
        [\<lparr>entry = 0, substitutions = [Some 7]\<rparr>, \<lparr>entry = 1, substitutions = [None]\<rparr>]
        exampleReverseHeap
        (fst (processLookaheadPosition [Single 65, Range (30, 40)]
               [\<lparr>entry = 0, substitutions = [Some 7]\<rparr>, \<lparr>entry = 1, substitutions = [None]\<rparr>]
               exampleReverseHeap))
        (snd (processLookaheadPosition [Single 65, Range (30, 40)]
               [\<lparr>entry = 0, substitutions = [Some 7]\<rparr>, \<lparr>entry = 1, substitutions = [None]\<rparr>]
               exampleReverseHeap))"
    by blast
  from sepR bt sepF la stepR stepF show ?thesis
    by (intro conjI)
qed

text \<open>
  The claim as it was stated fails where it says that existing contents are preserved: a
  candidate glyph that the branch-point already has a child for is linked to the new entry,
  and the child it had, entry 1 in the examples, is no longer referred to.
\<close>

theorem context_positions_counterexample:
  "individualGet (the (reverse (entries exampleReverseHeap ! 0))) 65 exampleReverseHeap = Some 1
   \<and> processBacktrackPosition [Single 65] [\<lparr>entry = 0, substitutions = []\<rparr>] exampleReverseHeap
      = ([\<lparr>entry = 3, substitutions = []\<rparr>],
         \<lparr>entries = [\<lparr>forward = None, reverse = Some 0\<rparr>, \<lparr>forward = None, reverse = None\<rparr>,
                     \<lparr>forward = None, reverse = None\<rparr>, \<lparr>forward = None, reverse = None\<rparr>],
          trees = [\<lparr>individual = [(65, 3)], range' = [((10, 20), 2)]\<rparr>]\<rparr>)
   \<and> individualGet 0 65 (snd (processBacktrackPosition [Single 65]
        [\<lparr>entry = 0, substitutions = []\<rparr>] exampleReverseHeap)) = Some 3
   \<and> processLookaheadPosition [Single 65] [\<lparr>entry = 0, substitutions = []\<rparr>] exampleHeap
      = ([\<lparr>entry = 3, substitutions = []\<rparr>],
         \<lparr>entries = [\<lparr>forward = Some 0, reverse = None\<rparr>, \<lparr>forward = Some 1, reverse = None\<rparr>,
                     \<lparr>forward = None, reverse = None\<rparr>, \<lparr>forward = None, reverse = None\<rparr>],
          trees = [\<lparr>individual = [(65, 3)], range' = []\<rparr>,
                   \<lparr>individual = [(66, 2)], range' = []\<rparr>]\<rparr>)
   \<and> individualGet 0 65 exampleHeap = Some 1"
  by code_simp

end
